theory Spec2Isabelle
  imports Complex_Main "HOL-Library.AList" "HOL-Library.Sublist"
begin

chapter \<open>The model\<close>

section \<open>Python strings\<close>

text \<open>
  Python strings are modelled as HOL strings over the ASCII range. \<open>str.lower\<close>
  maps the letters A..Z to a..z, \<open>str.strip\<close> removes leading and trailing
  white space, \<open>str.rstrip(cs)\<close> removes trailing characters of \<open>cs\<close>.
\<close>

definition lower_char :: "char \<Rightarrow> char" where
  "lower_char c =
     (if 65 \<le> (of_char c :: nat) \<and> (of_char c :: nat) \<le> 90
      then char_of ((of_char c :: nat) + 32) else c)"

definition py_lower :: "string \<Rightarrow> string" where
  "py_lower s = map lower_char s"

definition is_space :: "char \<Rightarrow> bool" where
  "is_space c = ((of_char c :: nat) \<in> {9, 10, 11, 12, 13, 28, 29, 30, 31, 32})"

definition py_lstrip :: "string \<Rightarrow> string" where
  "py_lstrip s = dropWhile is_space s"

definition py_rstrip :: "string \<Rightarrow> string" where
  "py_rstrip s = rev (dropWhile is_space (rev s))"

definition py_strip :: "string \<Rightarrow> string" where
  "py_strip s = py_rstrip (py_lstrip s)"

definition rstrip_chars :: "string \<Rightarrow> string \<Rightarrow> string" where
  "rstrip_chars cs s = rev (dropWhile (\<lambda>c. c \<in> set cs) (rev s))"

definition startswith :: "string \<Rightarrow> string \<Rightarrow> bool" where
  "startswith s p = (take (length p) s = p)"

text \<open>\<open>str\<close> of a natural number and of an integer, in decimal.\<close>

fun str_nat :: "nat \<Rightarrow> string" where
  "str_nat n =
     (if n < 10 then [char_of (48 + n)]
      else str_nat (n div 10) @ [char_of (48 + n mod 10)])"

declare str_nat.simps [simp del]

definition str_int :: "int \<Rightarrow> string" where
  "str_int i = (if i < 0 then CHR ''-'' # str_nat (nat (- i)) else str_nat (nat i))"

section \<open>Python exceptions and floats\<close>

text \<open>
  Exceptions: those \<open>_send_once\<close> raises (transport failures, carried as their
  message), the \<open>RuntimeError\<close> of the last line of \<open>request\<close>, the
  \<open>KeyError\<close> of a dictionary read at a missing key, \<open>TypeError\<close>, and the
  \<open>OverflowError\<close> of the conversion of an integer to a float.
\<close>

datatype exn =
  TransportError string | RuntimeError string | KeyError string | TypeError string
  | OverflowError string

text \<open>
  A Python float is an IEEE 754 binary64 number: \<open>Fin x\<close> is the finite float of value
  \<open>x\<close> (the two zeros are one value), \<open>PInf\<close> and \<open>NInf\<close> are the infinities and
  \<open>NaN\<close> is not a number.
\<close>

datatype pyfloat = Fin real | PInf | NInf | NaN

text \<open>
  Rounding to the nearest float, ties to the even significand. \<open>round_even q\<close> is the
  integer nearest to \<open>q\<close>, the even one of two that are equally near. The unit in the
  last place of a magnitude \<open>m\<close> is the power of two \<open>ulp m\<close> with
  \<open>ulp m * 2 ^ 52 \<le> m < ulp m * 2 ^ 53\<close>, and \<open>2 ^ -1074\<close> for the subnormal
  magnitudes, those below \<open>2 ^ -1022\<close>: \<open>ulp_from\<close> doubles the smallest unit until the
  magnitude is below \<open>2 ^ 53\<close> units. \<open>round_mag m\<close> rounds the magnitude to a whole
  number of units, and \<open>to_double x\<close> is the float nearest to the real \<open>x\<close>: an
  infinity when the rounded magnitude reaches \<open>2 ^ 1024\<close>.
\<close>

definition round_even :: "real \<Rightarrow> int" where
  "round_even q =
     (let f = \<lfloor>q\<rfloor>; r = q - of_int f
      in if r < 1 / 2 then f
         else if 1 / 2 < r then f + 1
         else if even f then f else f + 1)"

function ulp_from :: "real \<Rightarrow> real \<Rightarrow> real" where
  "ulp_from u x = (if 0 < u \<and> u * 2 ^ 53 \<le> x then ulp_from (2 * u) x else u)"
  by pat_completeness auto
termination
proof (relation "measure (\<lambda>(u, x). nat \<lceil>x / u\<rceil>)", goal_cases)
  case 1
  show ?case by simp
next
  case (2 u x)
  then have u: "0 < u" and le: "u * 2 ^ 53 \<le> x"
    by simp_all
  have y: "2 ^ 53 \<le> x / u"
    using u le by (simp add: pos_le_divide_eq mult.commute)
  have "x / (2 * u) \<le> x / u - 1"
    using y by (simp add: field_simps)
  then have "\<lceil>x / (2 * u)\<rceil> \<le> \<lceil>x / u - 1\<rceil>"
    by (rule ceiling_mono)
  also have "\<dots> = \<lceil>x / u\<rceil> - 1"
    by simp
  finally have a: "\<lceil>x / (2 * u)\<rceil> < \<lceil>x / u\<rceil>"
    by simp
  have "0 < \<lceil>x / u\<rceil>"
    using y by (simp add: less_le_trans [of 0 "2 ^ 53"])
  then show ?case
    using a by simp
qed

declare ulp_from.simps [simp del]

definition min_subnormal :: real where
  "min_subnormal = 1 / 2 ^ 1074"

definition ulp :: "real \<Rightarrow> real" where
  "ulp x = ulp_from min_subnormal x"

definition round_mag :: "real \<Rightarrow> real" where
  "round_mag x = of_int (round_even (x / ulp x)) * ulp x"

definition to_double :: "real \<Rightarrow> pyfloat" where
  "to_double x =
     (let m = round_mag \<bar>x\<bar>
      in if 2 ^ 1024 \<le> m then (if x < 0 then NInf else PInf)
         else Fin (if x < 0 then - m else m))"

text \<open>
  The comparisons \<open>a < b\<close> and \<open>a <= b\<close> of two floats, false when either is
  \<open>NaN\<close>, and the operations \<open>-a\<close>, \<open>a + b\<close>, \<open>a - b\<close> and \<open>a * b\<close>, rounded.
\<close>

fun float_lt :: "pyfloat \<Rightarrow> pyfloat \<Rightarrow> bool" where
  "float_lt (Fin x) (Fin y) = (x < y)"
| "float_lt NaN b = False"
| "float_lt a NaN = False"
| "float_lt a NInf = False"
| "float_lt PInf b = False"
| "float_lt NInf b = True"
| "float_lt a PInf = True"

fun float_le :: "pyfloat \<Rightarrow> pyfloat \<Rightarrow> bool" where
  "float_le (Fin x) (Fin y) = (x \<le> y)"
| "float_le NaN b = False"
| "float_le a NaN = False"
| "float_le NInf b = True"
| "float_le a PInf = True"
| "float_le a NInf = False"
| "float_le PInf b = False"

fun float_neg :: "pyfloat \<Rightarrow> pyfloat" where
  "float_neg (Fin x) = Fin (- x)"
| "float_neg PInf = NInf"
| "float_neg NInf = PInf"
| "float_neg NaN = NaN"

fun float_add :: "pyfloat \<Rightarrow> pyfloat \<Rightarrow> pyfloat" where
  "float_add (Fin x) (Fin y) = to_double (x + y)"
| "float_add NaN b = NaN"
| "float_add a NaN = NaN"
| "float_add PInf NInf = NaN"
| "float_add NInf PInf = NaN"
| "float_add PInf b = PInf"
| "float_add a PInf = PInf"
| "float_add NInf b = NInf"
| "float_add a NInf = NInf"

definition float_sub :: "pyfloat \<Rightarrow> pyfloat \<Rightarrow> pyfloat" where
  "float_sub a b = float_add a (float_neg b)"

fun float_mul :: "pyfloat \<Rightarrow> pyfloat \<Rightarrow> pyfloat" where
  "float_mul (Fin x) (Fin y) = to_double (x * y)"
| "float_mul NaN b = NaN"
| "float_mul a NaN = NaN"
| "float_mul (Fin x) b = (if x = 0 then NaN else if (0 < x) = (b = PInf) then PInf else NInf)"
| "float_mul a (Fin y) = (if y = 0 then NaN else if (0 < y) = (a = PInf) then PInf else NInf)"
| "float_mul a b = (if a = b then PInf else NInf)"

text \<open>
  The builtin \<open>max(a, b)\<close> on two floats keeps its first argument unless the second is
  greater: \<open>max(nan, b)\<close> is \<open>nan\<close>, and \<open>max(a, nan)\<close> is \<open>a\<close>.
\<close>

definition py_max :: "pyfloat \<Rightarrow> pyfloat \<Rightarrow> pyfloat" where
  "py_max a b = (if float_lt a b then b else a)"

text \<open>
  The conversion of an integer to a float, which an arithmetic operation applies to an
  integer operand: the nearest float, and \<open>OverflowError\<close> where that would be an
  infinity.
\<close>

definition float_of_int :: "int \<Rightarrow> exn + pyfloat" where
  "float_of_int n =
     (case to_double (of_int n) of
        Fin x \<Rightarrow> Inr (Fin x)
      | _ \<Rightarrow> Inl (OverflowError ''int too large to convert to float''))"

text \<open>
  Vocabulary for the properties of floats. \<open>is_double x\<close>: the real \<open>x\<close> is the value
  of a finite float; \<open>is_float a\<close>: a finite \<open>a\<close> has such a value. \<open>is_ulp U m\<close>: \<open>U\<close>
  is the unit in the last place of the magnitude \<open>m\<close>.
\<close>

definition is_double :: "real \<Rightarrow> bool" where
  "is_double x = (to_double x = Fin x)"

definition is_float :: "pyfloat \<Rightarrow> bool" where
  "is_float a = (case a of Fin x \<Rightarrow> is_double x | _ \<Rightarrow> True)"

definition is_ulp :: "real \<Rightarrow> real \<Rightarrow> bool" where
  "is_ulp U x = (\<exists>n::nat. U = 2 ^ n * min_subnormal \<and> x < U * 2 ^ 53 \<and> (n = 0 \<or> U * 2 ^ 52 \<le> x))"

section \<open>core/probe.py and core/decision\_engine.py\<close>

record ProbeResult =
  status_code :: "int option"
  title :: "string option"
  server :: "string option"
  content_length :: "int option"
  technologies :: "string list"

record ScanTask =
  task_type :: string
  args :: "string list option"

text \<open>
  \<open>DecisionEngine.evaluate\<close>: five \<open>if\<close> statements in sequence, each appending
  at most one task. \<open>probe_result.content_length or 0\<close> reads \<open>None\<close> as 0.
\<close>

definition evaluate :: "ProbeResult \<Rightarrow> ScanTask list" where
  "evaluate probe_result =
     (let status = status_code probe_result;
          techs = technologies probe_result;
          clen = (case content_length probe_result of None \<Rightarrow> 0 | Some n \<Rightarrow> n)
      in (if status = Some 403
          then [\<lparr>task_type = ''403_BYPASS'', args = None\<rparr>] else [])
       @ (if ''Jenkins'' \<in> set techs
          then [\<lparr>task_type = ''NUCLEI_SCAN'', args = Some [''jenkins-cves'']\<rparr>] else [])
       @ (if ''WordPress'' \<in> set techs
          then [\<lparr>task_type = ''WP_SCAN'', args = None\<rparr>] else [])
       @ (if status = Some 200 \<and> clen > 0
          then [\<lparr>task_type = ''JS_ANALYSIS'', args = None\<rparr>] else [])
       @ (if status = Some 200
          then [\<lparr>task_type = ''FUZZING'', args = None\<rparr>] else []))"

section \<open>core/http\_client.py\<close>

text \<open>
  \<open>2 ** e\<close> as the operand of a product with a float. For \<open>e \<ge> 0\<close> it is the
  integer \<open>2 ^ e\<close>, which the product converts to a float: \<open>OverflowError\<close> from
  \<open>2 ** 1024\<close> on. For \<open>e < 0\<close> it is the float power \<open>2.0 ** float(e)\<close>, the float
  nearest to \<open>1 / 2 ^ (-e)\<close>; no caller passes an attempt below 1.
\<close>

definition pow2 :: "int \<Rightarrow> exn + pyfloat" where
  "pow2 e =
     (if 0 \<le> e then float_of_int (2 ^ nat e)
      else case float_of_int e of
             Inl err \<Rightarrow> Inl err
           | Inr _ \<Rightarrow> Inr (to_double (1 / 2 ^ nat (- e))))"

text \<open>
  \<open>random.uniform(a, b)\<close> is \<open>a + (b - a) * random()\<close> in float arithmetic; the draw
  \<open>u\<close> of \<open>random()\<close>, a float of the interval [0, 1), is an argument of the model.
  \<open>_compute_backoff\<close> calls it with the integer 0, converted to the float 0.0, and with
  \<open>max(0.0, jitter)\<close>. The backoff factor and the jitter are floats, as they are
  annotated, which may be infinite or \<open>NaN\<close>.
\<close>

definition uniform :: "pyfloat \<Rightarrow> pyfloat \<Rightarrow> pyfloat \<Rightarrow> pyfloat" where
  "uniform a b u = float_add a (float_mul (float_sub b a) u)"

definition compute_backoff :: "int \<Rightarrow> pyfloat \<Rightarrow> pyfloat \<Rightarrow> pyfloat \<Rightarrow> exn + pyfloat" where
  "compute_backoff attempt backoff_factor jitter u =
     (case pow2 (attempt - 1) of
        Inl err \<Rightarrow> Inl err
      | Inr p \<Rightarrow>
          let base = float_mul backoff_factor p
          in Inr (float_add base (uniform (Fin 0) (py_max (Fin 0) jitter) u)))"

text \<open>
  \<open>_retry_after_delay\<close>. The builtin \<open>float\<close> is the argument \<open>py_float\<close>:
  \<open>None\<close> where \<open>float\<close> raises, which the \<open>try\<close> catches; it returns \<open>NaN\<close> for
  the header \<open>nan\<close> and an infinity for \<open>inf\<close>. \<open>if retry_after\<close> holds for a header
  that is present and not the empty string. The literal \<open>0.1\<close> is the float nearest
  to \<open>1 / 10\<close>.
\<close>

definition retry_after_delay ::
  "(string \<Rightarrow> pyfloat option) \<Rightarrow> (string \<rightharpoonup> string) \<Rightarrow> int \<Rightarrow> pyfloat \<Rightarrow> pyfloat \<Rightarrow> pyfloat
   \<Rightarrow> exn + pyfloat" where
  "retry_after_delay py_float hdrs attempt backoff_factor jitter u =
     (case hdrs ''Retry-After'' of
        None \<Rightarrow> compute_backoff attempt backoff_factor jitter u
      | Some retry_after \<Rightarrow>
          if retry_after \<noteq> [] then
            (case py_float retry_after of
               Some x \<Rightarrow> Inr (py_max x (to_double (1 / 10)))
             | None \<Rightarrow> compute_backoff attempt backoff_factor jitter u)
          else compute_backoff attempt backoff_factor jitter u)"

text \<open>
  A parser for the words \<open>nan\<close> and \<open>inf\<close> and the decimal literals
  \<open>[+-]digits[.digits]\<close>, on which it agrees with Python's \<open>float\<close>, which returns the
  float nearest to the decimal number; it stands for \<open>float\<close> where a concrete header
  is evaluated.
\<close>

definition is_digit :: "char \<Rightarrow> bool" where
  "is_digit c = (48 \<le> (of_char c :: nat) \<and> (of_char c :: nat) \<le> 57)"

definition digits_val :: "string \<Rightarrow> nat" where
  "digits_val ds = foldl (\<lambda>acc c. 10 * acc + ((of_char c :: nat) - 48)) 0 ds"

definition unsigned_decimal :: "string \<Rightarrow> real option" where
  "unsigned_decimal s =
     (let ip = takeWhile is_digit s; rest = dropWhile is_digit s
      in if ip = [] then None
         else if rest = [] then Some (real (digits_val ip))
         else if hd rest = CHR ''.'' \<and> tl rest \<noteq> [] \<and> (\<forall>c \<in> set (tl rest). is_digit c)
              then Some (real (digits_val ip)
                         + real (digits_val (tl rest)) / 10 ^ length (tl rest))
              else None)"

definition decimal_float :: "string \<Rightarrow> pyfloat option" where
  "decimal_float s =
     (if s = ''nan'' then Some NaN
      else if s = ''inf'' then Some PInf
      else
        (case s of
           [] \<Rightarrow> None
         | c # cs \<Rightarrow>
             if c = CHR ''-'' then map_option (\<lambda>x. to_double (- x)) (unsigned_decimal cs)
             else if c = CHR ''+'' then map_option to_double (unsigned_decimal cs)
             else map_option to_double (unsigned_decimal s)))"

record HttpRequest =
  req_method :: string
  url :: string
  timeout :: "pyfloat option"
  max_retries :: "int option"
  backoff_factor :: "pyfloat option"
  jitter :: "pyfloat option"

record HttpResponse =
  status_code :: int
  headers :: "string \<rightharpoonup> string"
  text_body :: string
  url :: string

record HttpClient =
  max_retries :: int
  backoff_factor :: pyfloat
  jitter :: pyfloat
  default_timeout :: pyfloat
  throttle_on_429 :: bool

text \<open>
  \<open>HttpClient.request\<close>. The environment is \<open>send_once\<close>: the outcome of the call of
  \<open>_send_once\<close> made at a given attempt with the given timeout, an exception or a
  response; \<open>rnd k\<close> is the draw of \<open>random()\<close> at attempt \<open>k\<close>. The result pairs the
  delays passed to \<open>asyncio.sleep\<close>, in order, with the exception raised (\<open>Inl\<close>) or
  the response returned (\<open>Inr\<close>); \<open>asyncio.sleep\<close> is taken to return.

  \<open>try_attempt\<close> is the \<open>try\<close> block of one attempt (lines 83 to 94): it returns the
  response, or computes a delay, sleeps and continues with the next attempt, or raises:
  the exception of \<open>_send_once\<close>, or the one of the computation of the delay, which the
  \<open>except\<close> clause catches as well.

  The \<open>for\<close> loop over \<open>range(1, attempts + 1)\<close> is the recursion of
  \<open>request_loop\<close> on \<open>attempt\<close>; a \<open>continue\<close> and the end of the loop body both go
  to the next attempt, and the two lines after the loop are the branch
  \<open>attempts < attempt\<close>. After an exception, the delay of lines 99 to 102 is computed
  outside the \<open>try\<close>: an exception of \<open>_compute_backoff\<close> there leaves \<open>request\<close>.
\<close>

datatype attempt_outcome = Returned HttpResponse | Retry pyfloat | Raised exn

definition try_attempt ::
  "HttpClient \<Rightarrow> (string \<Rightarrow> pyfloat option) \<Rightarrow> (int \<Rightarrow> pyfloat \<Rightarrow> exn + HttpResponse)
   \<Rightarrow> (int \<Rightarrow> pyfloat) \<Rightarrow> int \<Rightarrow> pyfloat \<Rightarrow> pyfloat \<Rightarrow> pyfloat \<Rightarrow> int \<Rightarrow> attempt_outcome" where
  "try_attempt client py_float send_once rnd attempts backoff jit tmo attempt =
     (case send_once attempt tmo of
        Inl exc \<Rightarrow> Raised exc
      | Inr resp \<Rightarrow>
          if 500 \<le> HttpResponse.status_code resp \<and> attempt < attempts then
            (case compute_backoff attempt backoff jit (rnd attempt) of
               Inl exc \<Rightarrow> Raised exc
             | Inr delay \<Rightarrow> Retry delay)
          else if HttpResponse.status_code resp = 429 \<and> throttle_on_429 client then
            (case retry_after_delay py_float (headers resp) attempt backoff jit (rnd attempt) of
               Inl exc \<Rightarrow> Raised exc
             | Inr delay \<Rightarrow> Retry delay)
          else Returned resp)"

function request_loop ::
  "HttpClient \<Rightarrow> (string \<Rightarrow> pyfloat option) \<Rightarrow> (int \<Rightarrow> pyfloat \<Rightarrow> exn + HttpResponse)
   \<Rightarrow> (int \<Rightarrow> pyfloat) \<Rightarrow> int \<Rightarrow> pyfloat \<Rightarrow> pyfloat \<Rightarrow> pyfloat \<Rightarrow> int \<Rightarrow> exn option
   \<Rightarrow> pyfloat list \<Rightarrow> pyfloat list \<times> (exn + HttpResponse)" where
  "request_loop client py_float send_once rnd attempts backoff jit tmo attempt last_exc slept =
     (if attempts < attempt then
        (slept, case last_exc of
                  Some e \<Rightarrow> Inl e
                | None \<Rightarrow> Inl (RuntimeError ''HTTP request failed with no response''))
      else
        (case try_attempt client py_float send_once rnd attempts backoff jit tmo attempt of
           Returned resp \<Rightarrow> (slept, Inr resp)
         | Retry delay \<Rightarrow>
             request_loop client py_float send_once rnd attempts backoff jit tmo
               (attempt + 1) last_exc (slept @ [delay])
         | Raised exc \<Rightarrow>
             if attempt < attempts then
               (case compute_backoff attempt backoff jit (rnd attempt) of
                  Inl err \<Rightarrow> (slept, Inl err)
                | Inr delay \<Rightarrow>
                    request_loop client py_float send_once rnd attempts backoff jit tmo
                      (attempt + 1) (Some exc) (slept @ [delay]))
             else
               request_loop client py_float send_once rnd attempts backoff jit tmo
                 (attempt + 1) (Some exc) slept))"
  by pat_completeness auto
termination
  by (relation "measure (\<lambda>(client, py_float, send_once, rnd, attempts, backoff, jit, tmo,
        attempt, last_exc, slept). nat (attempts + 1 - attempt))") auto

text \<open>
  \<open>req.max_retries or self.max_retries\<close> takes the client's value when the request's is
  \<open>None\<close> or 0.
\<close>

definition request ::
  "HttpClient \<Rightarrow> (string \<Rightarrow> pyfloat option) \<Rightarrow> (int \<Rightarrow> pyfloat \<Rightarrow> exn + HttpResponse)
   \<Rightarrow> (int \<Rightarrow> pyfloat) \<Rightarrow> HttpRequest \<Rightarrow> pyfloat list \<times> (exn + HttpResponse)" where
  "request client py_float send_once rnd req =
     (let attempts = max 1 (case HttpRequest.max_retries req of
                              None \<Rightarrow> HttpClient.max_retries client
                            | Some n \<Rightarrow> if n = 0 then HttpClient.max_retries client else n);
          backoff = (case HttpRequest.backoff_factor req of
                       None \<Rightarrow> HttpClient.backoff_factor client | Some b \<Rightarrow> b);
          jit = (case HttpRequest.jitter req of
                   None \<Rightarrow> HttpClient.jitter client | Some j \<Rightarrow> j);
          tmo = (case timeout req of None \<Rightarrow> default_timeout client | Some t \<Rightarrow> t)
      in request_loop client py_float send_once rnd attempts backoff jit tmo 1 None [])"

section \<open>core/models.py\<close>

record ScopeInfo =
  host :: string
  ip :: string
  url :: string
  mode :: string

text \<open>
  Values of \<open>config\<close> and \<open>extra\<close> (\<open>Dict[str, Any]\<close>): the Python values
  \<open>json.dumps\<close> accepts, and \<open>PObject\<close> for any other object.
\<close>

datatype pyval =
    PNone
  | PBool bool
  | PInt int
  | PFloat pyfloat
  | PStr string
  | PList "pyval list"
  | PTuple "pyval list"
  | PDict "(pyval \<times> pyval) list"
  | PObject string

text \<open>A line of the event sink: the payload \<open>emit\<close> writes.\<close>

record Emission =
  ev_ts :: real
  ev_category :: string
  ev_value :: string

text \<open>
  \<open>ReconContext\<close>. The collaborators \<open>log\<close>, \<open>http_client\<close> and
  \<open>session_manager\<close> are left out; \<open>progress_cb\<close> says whether an observer is
  registered. Two fields record the effects of \<open>emit\<close> outside the object:
  \<open>event_sink\<close>, the lines appended to files as pairs of path and payload, and
  \<open>progress_calls\<close>, the arguments of the calls of the observer, both in order.
\<close>

record ReconContext =
  scope :: ScopeInfo
  config :: "(string \<times> pyval) list"
  findings :: "string list"
  screenshots :: "string list"
  state_path :: "string option"
  subdomains :: "string list"
  base_ports :: "(int \<times> string) list"
  web_ports :: "(string \<times> int list) list"
  nuclei_raw :: string
  nuclei_urls :: "string list"
  extra :: "(string \<times> pyval) list"
  timings :: "(string \<times> pyfloat) list"
  progress_cb :: bool
  progress_seen :: "string \<rightharpoonup> string set"
  verbose_logs :: bool
  event_path :: "string option"
  event_sink :: "(string \<times> Emission) list"
  progress_calls :: "(string \<times> string) list"

text \<open>
  \<open>ReconContext.emit\<close>; \<open>now\<close> is the value of \<open>time.time()\<close> at the call.
  \<open>setdefault\<close> adds an empty set for a new category, to which the value is added at
  once. \<open>if self.event_path\<close> holds for a path that is neither \<open>None\<close> nor empty.
  An exception of the write or of the observer is swallowed by the source; the model
  records the write and the call that were issued.
\<close>

definition emit :: "ReconContext \<Rightarrow> real \<Rightarrow> string \<Rightarrow> string \<Rightarrow> ReconContext" where
  "emit ctx now category val =
     (if category = [] \<or> val = [] then ctx
      else
        let cat = py_strip (py_lower category);
            seen = (case progress_seen ctx cat of None \<Rightarrow> {} | Some s \<Rightarrow> s)
        in if val \<in> seen then ctx
           else
             let ctx1 = ctx\<lparr>progress_seen := (progress_seen ctx)(cat \<mapsto> insert val seen)\<rparr>;
                 ctx2 = (case event_path ctx1 of
                           None \<Rightarrow> ctx1
                         | Some path \<Rightarrow>
                             if path \<noteq> [] then
                               ctx1\<lparr>event_sink := event_sink ctx1 @
                                 [(path, \<lparr>ev_ts = now, ev_category = cat, ev_value = val\<rparr>)]\<rparr>
                             else ctx1)
             in if progress_cb ctx2
                then ctx2\<lparr>progress_calls := progress_calls ctx2 @ [(cat, val)]\<rparr>
                else ctx2)"

text \<open>A sequence of calls of \<open>emit\<close>, each with its time, category and value.\<close>

fun emit_all :: "ReconContext \<Rightarrow> (real \<times> string \<times> string) list \<Rightarrow> ReconContext" where
  "emit_all ctx [] = ctx"
| "emit_all ctx ((now, category, val) # calls) = emit_all (emit ctx now category val) calls"

text \<open>
  The constructor of the dataclass: the fields without a default are arguments, with
  the observer and the event path; every other field takes its default.
\<close>

definition new_context ::
  "ScopeInfo \<Rightarrow> (string \<times> pyval) list \<Rightarrow> bool \<Rightarrow> string option \<Rightarrow> ReconContext" where
  "new_context sc cfg cb path =
     \<lparr>scope = sc, config = cfg, findings = [], screenshots = [], state_path = None,
      subdomains = [], base_ports = [], web_ports = [], nuclei_raw = [], nuclei_urls = [],
      extra = [], timings = [], progress_cb = cb, progress_seen = Map.empty,
      verbose_logs = False, event_path = path, event_sink = [], progress_calls = []\<rparr>"

text \<open>
  Vocabulary for the properties of \<open>emit\<close>: the category as \<open>emit\<close> compares it,
  whether a pair is in the deduplication state, how often the observer was called and
  the event sink written with a pair, and whether a call of \<open>emit\<close> passes the guard
  on its arguments with a given pair.
\<close>

definition norm_category :: "string \<Rightarrow> string" where
  "norm_category category = py_strip (py_lower category)"

definition was_seen :: "ReconContext \<Rightarrow> string \<Rightarrow> string \<Rightarrow> bool" where
  "was_seen ctx cat v = (case progress_seen ctx cat of None \<Rightarrow> False | Some s \<Rightarrow> v \<in> s)"

definition observer_count :: "ReconContext \<Rightarrow> string \<Rightarrow> string \<Rightarrow> nat" where
  "observer_count ctx cat v = length (filter (\<lambda>c. c = (cat, v)) (progress_calls ctx))"

definition sink_count :: "ReconContext \<Rightarrow> string \<Rightarrow> string \<Rightarrow> nat" where
  "sink_count ctx cat v =
     length (filter (\<lambda>(p, e). ev_category e = cat \<and> ev_value e = v) (event_sink ctx))"

definition emits_pair :: "string \<Rightarrow> string \<Rightarrow> (real \<times> string \<times> string) \<Rightarrow> bool" where
  "emits_pair cat v call =
     (case call of (now, category, val) \<Rightarrow>
        category \<noteq> [] \<and> norm_category category = cat \<and> val = v)"

section \<open>apps/recon.py\<close>

definition upper_char :: "char \<Rightarrow> char" where
  "upper_char c =
     (if 97 \<le> (of_char c :: nat) \<and> (of_char c :: nat) \<le> 122
      then char_of ((of_char c :: nat) - 32) else c)"

definition py_upper :: "string \<Rightarrow> string" where
  "py_upper s = map upper_char s"

text \<open>
  \<open>TaskContext\<close>: \<open>log_lines\<close> holds the messages passed to the log callback, in
  order (\<open>TaskContext.log\<close> swallows the callback's exceptions).
\<close>

record TaskContext =
  findings :: "string list"
  new_endpoints :: "string list"
  log_lines :: "string list"

definition log :: "TaskContext \<Rightarrow> string \<Rightarrow> TaskContext" where
  "log ctx message = ctx\<lparr>log_lines := log_lines ctx @ [message]\<rparr>"

text \<open>
  The collaborators of the loop: \<open>SmartProbe.probe_url\<close>, and the \<open>run\<close> methods of
  \<open>BypassModule(target)\<close>, \<open>FuzzerModule(target)\<close> and \<open>JsSpiderModule(target)\<close>,
  each a function of the target and the task context it may change.
\<close>

record task_env =
  probe_url :: "string \<Rightarrow> ProbeResult"
  bypass_run :: "string \<Rightarrow> TaskContext \<Rightarrow> TaskContext"
  fuzzer_run :: "string \<Rightarrow> TaskContext \<Rightarrow> TaskContext"
  js_spider_run :: "string \<Rightarrow> TaskContext \<Rightarrow> TaskContext"

definition execute_task :: "task_env \<Rightarrow> ScanTask \<Rightarrow> string \<Rightarrow> TaskContext \<Rightarrow> TaskContext" where
  "execute_task env task target ctx =
     (let ttype = py_upper (task_type task)
      in if ttype = ''403_BYPASS'' then bypass_run env target ctx
         else if ttype = ''FUZZING'' then fuzzer_run env target ctx
         else if ttype = ''JS_ANALYSIS'' then js_spider_run env target ctx
         else log ctx (''[Task] '' @ ttype @ '' not implemented in Task Queue; skipping.''))"

definition normalize_target :: "string \<Rightarrow> string" where
  "normalize_target target =
     (if startswith target ''http://'' \<or> startswith target ''https://''
      then rstrip_chars ''/'' target
      else rstrip_chars ''/'' (''http://'' @ target))"

text \<open>
  The state of the loop of \<open>run_task_queue\<close>: the local variables \<open>queue\<close>, \<open>seen\<close>
  and \<open>ctx\<close>, and two traces that the source does not keep: \<open>probed\<close>, the arguments
  of the calls of \<open>probe_url\<close> in order, and \<open>enqueued\<close>, every target put on the
  queue, in order: the initial queue, then each argument of \<open>queue.append\<close>.
\<close>

record queue_state =
  queue :: "string list"
  seen :: "string set"
  ctx :: TaskContext
  probed :: "string list"
  enqueued :: "string list"

text \<open>The loop over \<open>ctx.new_endpoints\<close> (lines 70 to 72).\<close>

fun enqueue_new :: "queue_state \<Rightarrow> string list \<Rightarrow> queue_state" where
  "enqueue_new st [] = st"
| "enqueue_new st (ep # eps) =
     enqueue_new
       (if ep \<notin> seen st \<and> ep \<notin> set (queue st)
        then st\<lparr>queue := queue st @ [ep], enqueued := enqueued st @ [ep]\<rparr>
        else st) eps"

text \<open>The loop over the tasks (lines 66 to 73).\<close>

fun run_tasks :: "task_env \<Rightarrow> string \<Rightarrow> queue_state \<Rightarrow> ScanTask list \<Rightarrow> queue_state" where
  "run_tasks env target st [] = st"
| "run_tasks env target st (task # tasks) =
     (let c = execute_task env task target (ctx st);
          st1 = st\<lparr>ctx := c\<rparr>;
          st2 = (if new_endpoints c \<noteq> []
                 then (enqueue_new st1 (new_endpoints c))\<lparr>ctx := c\<lparr>new_endpoints := []\<rparr>\<rparr>
                 else st1)
      in run_tasks env target st2 tasks)"

definition show_status :: "int option \<Rightarrow> string" where
  "show_status s = (case s of None \<Rightarrow> ''None'' | Some i \<Rightarrow> str_int i)"

text \<open>
  The body of the \<open>while\<close> loop for a target that is not in \<open>seen\<close>, after the
  \<open>pop\<close> (lines 57 to 73).
\<close>

definition probe_target :: "task_env \<Rightarrow> string \<Rightarrow> queue_state \<Rightarrow> queue_state" where
  "probe_target env target st =
     (let st1 = st\<lparr>seen := insert target (seen st)\<rparr>;
          st2 = st1\<lparr>ctx := log (ctx st1) (''[Queue] Probing '' @ target),
                    probed := probed st1 @ [target]\<rparr>;
          probe_result = probe_url env target;
          st3 = st2\<lparr>ctx := log (ctx st2)
                   (py_strip (''[Probe] '' @ target @ '' -> ''
                      @ show_status (ProbeResult.status_code probe_result) @ '' ''
                      @ (case title probe_result of None \<Rightarrow> [] | Some t \<Rightarrow> t)))\<rparr>;
          tasks = evaluate probe_result;
          st4 = st3\<lparr>ctx := log (ctx st3)
                   (''[Queue] '' @ str_nat (length tasks) @ '' follow-up tasks for '' @ target)\<rparr>
      in run_tasks env target st4 tasks)"

text \<open>
  The \<open>while queue\<close> loop. It need not end: \<open>None\<close> is the run that never leaves the
  loop.
\<close>

partial_function (option) queue_loop :: "task_env \<Rightarrow> queue_state \<Rightarrow> queue_state option" where
  "queue_loop env st =
     (case queue st of
        [] \<Rightarrow> Some st
      | target # rest \<Rightarrow>
          if target \<in> seen st then queue_loop env (st\<lparr>queue := rest\<rparr>)
          else queue_loop env (probe_target env target (st\<lparr>queue := rest\<rparr>)))"

definition initial_state :: "string list \<Rightarrow> queue_state" where
  "initial_state initial_targets =
     \<lparr>queue = map normalize_target initial_targets, seen = {},
      ctx = \<lparr>findings = [], new_endpoints = [], log_lines = []\<rparr>,
      probed = [], enqueued = map normalize_target initial_targets\<rparr>"

definition run_task_queue :: "task_env \<Rightarrow> string list \<Rightarrow> TaskContext option" where
  "run_task_queue env initial_targets =
     map_option ctx (queue_loop env (initial_state initial_targets))"

text \<open>
  Vocabulary for the properties of the loop. \<open>uniq_from A xs\<close> keeps the first
  occurrence of every element of \<open>xs\<close> that is not in \<open>A\<close>; \<open>first_occurrences\<close> is
  the list without its repetitions. \<open>discovers_within env U\<close>: every endpoint a module
  adds to \<open>new_endpoints\<close> is in \<open>U\<close>. \<open>queue_inv\<close> is the invariant of the loop.
\<close>

fun uniq_from :: "'a set \<Rightarrow> 'a list \<Rightarrow> 'a list" where
  "uniq_from A [] = []"
| "uniq_from A (x # xs) = (if x \<in> A then uniq_from A xs else x # uniq_from (insert x A) xs)"

definition first_occurrences :: "'a list \<Rightarrow> 'a list" where
  "first_occurrences xs = uniq_from {} xs"

definition discovers_within :: "task_env \<Rightarrow> string set \<Rightarrow> bool" where
  "discovers_within env U =
     (\<forall>target c.
        set (new_endpoints (bypass_run env target c)) \<subseteq> set (new_endpoints c) \<union> U
      \<and> set (new_endpoints (fuzzer_run env target c)) \<subseteq> set (new_endpoints c) \<union> U
      \<and> set (new_endpoints (js_spider_run env target c)) \<subseteq> set (new_endpoints c) \<union> U)"

definition queue_inv :: "queue_state \<Rightarrow> bool" where
  "queue_inv st =
     (seen st = set (probed st) \<and> distinct (probed st)
      \<and> set (enqueued st) \<subseteq> set (probed st) \<union> set (queue st)
      \<and> uniq_from {} (enqueued st) = probed st @ uniq_from (set (probed st)) (queue st))"


section \<open>core/recon.py\<close>

text \<open>
  A module as \<open>_resolve_module_layers\<close> reads it: its \<open>name\<close>, its \<open>enabled\<close>
  flag and its \<open>depends_on\<close> list. A Python dictionary is an association list in
  insertion order, with distinct keys; \<open>d[k] = v\<close> is \<open>AList.update k v d\<close>.
\<close>

record recon_module =
  name :: string
  enabled :: bool
  depends_on :: "string list"

text \<open>
  \<open>sep.join(xs)\<close>.
\<close>

fun py_join :: "string \<Rightarrow> string list \<Rightarrow> string" where
  "py_join sep [] = []"
| "py_join sep [x] = x"
| "py_join sep (x # y # ys) = x @ sep @ py_join sep (y # ys)"

text \<open>
  \<open>active\<close> (line 188), \<open>deps_map\<close> with the warnings logged on the way (lines 189 to
  195), \<open>indegree\<close> (line 197) and \<open>graph\<close> (lines 198 to 201). \<open>in_dict k d\<close> is
  \<open>k in d\<close>, and \<open>graph_get graph k\<close> is \<open>graph.get(k, [])\<close>, which is also what the
  \<open>defaultdict\<close> reads at a key before \<open>append\<close>.
\<close>

definition build_active :: "recon_module list \<Rightarrow> (string \<times> recon_module) list" where
  "build_active modules = fold (\<lambda>m d. AList.update (name m) m d) (filter enabled modules) []"

definition in_dict :: "'k \<Rightarrow> ('k \<times> 'v) list \<Rightarrow> bool" where
  "in_dict k d = (k \<in> set (map fst d))"

definition build_deps_map ::
  "(string \<times> recon_module) list \<Rightarrow> (string \<times> string list) list" where
  "build_deps_map active =
     map (\<lambda>(nm, m). (nm, filter (\<lambda>d. in_dict d active) (depends_on m))) active"

definition missing_log :: "(string \<times> recon_module) list \<Rightarrow> string list" where
  "missing_log active =
     concat (map (\<lambda>(nm, m).
               let missing = filter (\<lambda>d. \<not> in_dict d active) (depends_on m)
               in if missing \<noteq> []
                  then [''[Module] '' @ nm @ '' missing deps '' @ py_join '', '' missing
                        @ ''; continuing without them.'']
                  else []) active)"

definition build_indegree :: "(string \<times> string list) list \<Rightarrow> (string \<times> int) list" where
  "build_indegree deps_map = map (\<lambda>(nm, deps). (nm, int (length deps))) deps_map"

definition graph_get :: "(string \<times> string list) list \<Rightarrow> string \<Rightarrow> string list" where
  "graph_get graph k = (case map_of graph k of None \<Rightarrow> [] | Some ns \<Rightarrow> ns)"

definition graph_append ::
  "string \<Rightarrow> string \<Rightarrow> (string \<times> string list) list \<Rightarrow> (string \<times> string list) list" where
  "graph_append nm dep graph = AList.update dep (graph_get graph dep @ [nm]) graph"

definition build_graph :: "(string \<times> string list) list \<Rightarrow> (string \<times> string list) list" where
  "build_graph deps_map = fold (\<lambda>(nm, deps) g. fold (graph_append nm) deps g) deps_map []"

text \<open>
  The loop over \<open>graph.get(name, [])\<close> (lines 217 to 220): \<open>indegree[dep] -= 1\<close> raises
  \<open>KeyError\<close> at a missing key.
\<close>

fun dec_dependents ::
  "(string \<times> int) list \<Rightarrow> string list \<Rightarrow> string list
   \<Rightarrow> exn + ((string \<times> int) list \<times> string list)" where
  "dec_dependents indegree next_ready [] = Inr (indegree, next_ready)"
| "dec_dependents indegree next_ready (dep # deps) =
     (case map_of indegree dep of
        None \<Rightarrow> Inl (KeyError dep)
      | Some deg \<Rightarrow>
          dec_dependents (AList.update dep (deg - 1) indegree)
            (if deg - 1 = 0 then next_ready @ [dep] else next_ready) deps)"

text \<open>
  The loop over \<open>ready\<close> (lines 210 to 220), on the variables it changes.
\<close>

record layer_state =
  visited :: "string set"
  indegree :: "(string \<times> int) list"
  current_layer :: "recon_module list"
  next_ready :: "string list"

fun process_ready ::
  "(string \<times> recon_module) list \<Rightarrow> (string \<times> string list) list \<Rightarrow> layer_state \<Rightarrow> string list
   \<Rightarrow> exn + layer_state" where
  "process_ready active graph st [] = Inr st"
| "process_ready active graph st (nm # ready) =
     (if nm \<in> visited st then process_ready active graph st ready
      else
        let st1 = st\<lparr>visited := insert nm (visited st)\<rparr>;
            st2 = (case map_of active nm of
                     None \<Rightarrow> st1
                   | Some m \<Rightarrow> st1\<lparr>current_layer := current_layer st1 @ [m]\<rparr>)
        in case dec_dependents (indegree st2) (next_ready st2) (graph_get graph nm) of
             Inl e \<Rightarrow> Inl e
           | Inr (ind, nr) \<Rightarrow>
               process_ready active graph (st2\<lparr>indegree := ind, next_ready := nr\<rparr>) ready)"


text \<open>
  Two facts on the inner loops, for the termination of the \<open>while\<close> loop.
\<close>

lemma dec_dependents_keys:
  "dec_dependents ind nr deps = Inr (ind', nr') \<Longrightarrow>
   set (map fst ind') = set (map fst ind) \<and> set nr' \<subseteq> set nr \<union> set (map fst ind)"
proof (induction deps arbitrary: ind nr)
  case Nil
  then show ?case by simp
next
  case (Cons dep deps)
  then obtain deg where deg: "map_of ind dep = Some deg"
    by (auto split: option.splits)
  then have k: "dep \<in> set (map fst ind)"
    by (metis map_of_eq_None_iff option.distinct(1) set_map)
  have "set (map fst (AList.update dep (deg - 1) ind)) = set (map fst ind)"
    using k by (simp add: update_keys)
  then show ?case
    using Cons.IH [of "AList.update dep (deg - 1) ind"
                      "if deg - 1 = 0 then nr @ [dep] else nr"] Cons.prems deg k
    by (auto split: if_splits)
qed

lemma process_ready_facts:
  "process_ready active graph st ready = Inr st' \<Longrightarrow>
   set (map fst (indegree st')) = set (map fst (indegree st))
   \<and> set (next_ready st') \<subseteq> set (next_ready st) \<union> set (map fst (indegree st))
   \<and> visited st' = visited st \<union> set ready
   \<and> (set ready \<subseteq> visited st \<longrightarrow> next_ready st' = next_ready st)"
proof (induction ready arbitrary: st)
  case Nil
  then show ?case by simp
next
  case (Cons nm ready)
  show ?case
  proof (cases "nm \<in> visited st")
    case True
    then show ?thesis
      using Cons.IH [of st] Cons.prems by auto
  next
    case False
    let ?st1 = "st\<lparr>visited := insert nm (visited st)\<rparr>"
    let ?st2 = "(case map_of active nm of
                     None \<Rightarrow> ?st1
                   | Some m \<Rightarrow> ?st1\<lparr>current_layer := current_layer ?st1 @ [m]\<rparr>)"
    have st2: "indegree ?st2 = indegree st" "next_ready ?st2 = next_ready st"
      "visited ?st2 = insert nm (visited st)"
      by (simp_all split: option.splits)
    from Cons.prems False obtain ind nr where
      dd: "dec_dependents (indegree ?st2) (next_ready ?st2) (graph_get graph nm) = Inr (ind, nr)"
      and rest: "process_ready active graph (?st2\<lparr>indegree := ind, next_ready := nr\<rparr>) ready = Inr st'"
      by (auto simp: Let_def split: sum.splits)
    note k = dec_dependents_keys [OF dd]
    note ih = Cons.IH [OF rest]
    show ?thesis
      using ih k False by (auto simp: st2)
  qed
qed

text \<open>
  The \<open>while ready\<close> loop (lines 207 to 223). It ends: either a name of \<open>ready\<close> is
  new to \<open>visited\<close>, or \<open>next_ready\<close> is empty.
\<close>

function layer_loop ::
  "(string \<times> recon_module) list \<Rightarrow> (string \<times> string list) list \<Rightarrow> (string \<times> int) list
   \<Rightarrow> string set \<Rightarrow> recon_module list list \<Rightarrow> string list
   \<Rightarrow> exn + (string set \<times> recon_module list list)" where
  "layer_loop active graph ind vis layers ready =
     (if ready = [] then Inr (vis, layers)
      else
        case process_ready active graph
               \<lparr>visited = vis, indegree = ind, current_layer = [], next_ready = []\<rparr> ready of
          Inl e \<Rightarrow> Inl e
        | Inr st \<Rightarrow>
            layer_loop active graph (indegree st) (visited st)
              (if current_layer st \<noteq> [] then layers @ [current_layer st] else layers)
              (next_ready st))"
  by pat_completeness auto
termination
proof (relation "inv_image (less_than <*lex*> less_than)
         (\<lambda>(active, graph, ind, vis, layers, ready).
            (card ((set ready \<union> set (map fst ind)) - vis), length ready))", goal_cases)
  case 1
  then show ?case by (intro wf_inv_image wf_lex_prod wf_less_than)
next
  case (2 active graph ind vis layers ready st)
  note f = process_ready_facts [OF 2(2)]
  show ?case
  proof (cases "set ready \<subseteq> vis")
    case True
    then have "next_ready st = []" "visited st = vis"
      using f by auto
    moreover have "card (set (map fst (indegree st)) - vis)
                    \<le> card ((set ready \<union> set (map fst ind)) - vis)"
      using f by (intro card_mono) auto
    ultimately show ?thesis
      using 2(1) by auto
  next
    case False
    have "(set (next_ready st) \<union> set (map fst (indegree st))) - visited st
            \<subset> (set ready \<union> set (map fst ind)) - vis"
      using f False by auto
    then have "card ((set (next_ready st) \<union> set (map fst (indegree st))) - visited st)
            < card ((set ready \<union> set (map fst ind)) - vis)"
      by (intro psubset_card_mono) auto
    then show ?thesis by simp
  qed
qed

text \<open>
  \<open>_resolve_module_layers\<close>: the messages logged, in order, and the layers.
\<close>

definition resolve_module_layers ::
  "recon_module list \<Rightarrow> exn + (string list \<times> recon_module list list)" where
  "resolve_module_layers modules =
     (let active = build_active modules;
          logs = missing_log active;
          deps_map = build_deps_map active;
          ind = build_indegree deps_map;
          graph = build_graph deps_map;
          ready = map fst (filter (\<lambda>(nm, deg). deg = 0) ind)
      in case layer_loop active graph ind {} [] ready of
           Inl e \<Rightarrow> Inl e
         | Inr (vis, layers) \<Rightarrow>
             if card vis \<noteq> length active then
               Inr (logs @ [''[Module] Dependency cycle or unresolved modules detected; using original order fallback.''],
                    map (\<lambda>m. [m]) (filter enabled modules))
             else Inr (logs, layers))"


text \<open>
  Vocabulary for the properties of the scheduler. For a dependency map \<open>dm\<close>:
  \<open>dependents dm d\<close> lists the names that depend on \<open>d\<close>, once for each occurrence;
  \<open>remaining dm vis nm\<close> counts the dependencies of \<open>nm\<close> outside \<open>vis\<close>;
  \<open>ind_ok\<close> says that the in-degrees are these counts; \<open>wf_deps\<close> that the keys are
  distinct and every dependency is a key; \<open>avail dm vis\<close> is the set of names all of
  whose dependencies are in \<open>vis\<close>.
\<close>

definition dependents :: "(string \<times> string list) list \<Rightarrow> string \<Rightarrow> string list" where
  "dependents dm d = concat (map (\<lambda>(nm, ds). replicate (count_list ds d) nm) dm)"

definition remaining :: "(string \<times> string list) list \<Rightarrow> string set \<Rightarrow> string \<Rightarrow> int" where
  "remaining dm vis nm = int (length (filter (\<lambda>d. d \<notin> vis) (graph_get dm nm)))"

definition ind_ok ::
  "(string \<times> string list) list \<Rightarrow> (string \<times> int) list \<Rightarrow> string set \<Rightarrow> bool" where
  "ind_ok dm ind vis =
     (fst ` set ind = fst ` set dm
      \<and> (\<forall>nm \<in> fst ` set dm. map_of ind nm = Some (remaining dm vis nm)))"

definition wf_deps :: "(string \<times> string list) list \<Rightarrow> bool" where
  "wf_deps dm = (distinct (map fst dm) \<and> (\<forall>nm. set (graph_get dm nm) \<subseteq> fst ` set dm))"

definition avail :: "(string \<times> string list) list \<Rightarrow> string set \<Rightarrow> string set" where
  "avail dm vis = {nm \<in> fst ` set dm. set (graph_get dm nm) \<subseteq> vis}"

text \<open>
  \<open>layer_of active rs\<close> is the layer the names \<open>rs\<close> give; \<open>layers_ok\<close> is the
  invariant of the layers built so far: they hold the visited names, each once, no layer
  is empty, every module is the one \<open>active\<close> has under its name, and the
  dependencies of a module of layer \<open>i\<close> are in the layers before \<open>i\<close>; \<open>act_ok\<close>
  relates the keys of \<open>active\<close> to those of the dependency map; \<open>kahn_inv\<close> is the
  invariant of the \<open>while\<close> loop. \<open>enabled_names\<close> are the names of the enabled
  modules in declaration order, \<open>dep_edges\<close> the pairs of an enabled module's name and a
  dependency of it that is an enabled module's name, \<open>layer_index\<close> the index of the
  first layer that holds a name. \<open>missing_warning\<close> and \<open>fallback_warning\<close> are the
  two messages of \<open>_resolve_module_layers\<close>.
\<close>

definition layer_of :: "(string \<times> recon_module) list \<Rightarrow> string list \<Rightarrow> recon_module list" where
  "layer_of active rs = concat (map (\<lambda>nm. case map_of active nm of None \<Rightarrow> [] | Some m \<Rightarrow> [m]) rs)"

definition layers_ok ::
  "(string \<times> string list) list \<Rightarrow> (string \<times> recon_module) list \<Rightarrow> recon_module list list
   \<Rightarrow> string set \<Rightarrow> bool" where
  "layers_ok dm active layers vis =
     (name ` set (concat layers) = vis
      \<and> distinct (map name (concat layers))
      \<and> [] \<notin> set layers
      \<and> (\<forall>m \<in> set (concat layers). map_of active (name m) = Some m)
      \<and> (\<forall>i < length layers. \<forall>m \<in> set (layers ! i).
            set (graph_get dm (name m)) \<subseteq> name ` set (concat (take i layers))))"

definition act_ok :: "(string \<times> string list) list \<Rightarrow> (string \<times> recon_module) list \<Rightarrow> bool" where
  "act_ok dm active =
     (fst ` set active = fst ` set dm \<and> (\<forall>nm m. map_of active nm = Some m \<longrightarrow> name m = nm))"

definition kahn_inv ::
  "(string \<times> string list) list \<Rightarrow> (string \<times> recon_module) list \<Rightarrow> (string \<times> int) list
   \<Rightarrow> string set \<Rightarrow> recon_module list list \<Rightarrow> string list \<Rightarrow> bool" where
  "kahn_inv dm active ind vis layers ready =
     (ind_ok dm ind vis \<and> vis \<subseteq> avail dm vis \<and> distinct ready
      \<and> set ready = avail dm vis - vis \<and> layers_ok dm active layers vis)"

definition enabled_names :: "recon_module list \<Rightarrow> string list" where
  "enabled_names modules = map name (filter enabled modules)"

definition dep_edges :: "recon_module list \<Rightarrow> (string \<times> string) set" where
  "dep_edges modules =
     {(name a, b) | a b. a \<in> set modules \<and> enabled a \<and> b \<in> set (depends_on a)
                         \<and> b \<in> set (enabled_names modules)}"

definition layer_index :: "recon_module list list \<Rightarrow> string \<Rightarrow> nat" where
  "layer_index layers nm = length (takeWhile (\<lambda>l. nm \<notin> name ` set l) layers)"

definition missing_warning :: "recon_module list \<Rightarrow> recon_module \<Rightarrow> string" where
  "missing_warning modules m =
     ''[Module] '' @ name m @ '' missing deps ''
       @ py_join '', '' (filter (\<lambda>d. d \<notin> set (enabled_names modules)) (depends_on m))
       @ ''; continuing without them.''"

definition fallback_warning :: string where
  "fallback_warning =
     ''[Module] Dependency cycle or unresolved modules detected; using original order fallback.''"

section \<open>state\_manager.py\<close>






text \<open>
  A snapshot file is modelled by what the decoders make of its bytes. \<open>Missing\<close>: the
  path does not exist; \<open>Unreadable\<close>: \<open>read_bytes\<close> raises; \<open>Bytes gz raw\<close>: the bytes
  \<open>b\<close> are read, \<open>gz\<close> is the outcome of \<open>gzip.decompress(b).decode("utf-8")\<close> and
  of \<open>json.loads\<close> on its text, \<open>raw\<close> that of \<open>b.decode("utf-8")\<close> and of
  \<open>json.loads\<close> on its text. An outcome is \<open>DecodeError\<close> when decompressing or
  decoding raises, \<open>JsonError\<close> when the text is decoded and \<open>json.loads\<close> raises, and
  \<open>Parsed v\<close> when \<open>json.loads\<close> returns \<open>v\<close>.
\<close>

datatype text_outcome = DecodeError | JsonError | Parsed pyval

datatype snapshot_file = Missing | Unreadable | Bytes text_outcome text_outcome


text \<open>
  \<open>load_state\<close>. \<open>has_pydantic\<close> is \<open>_HAS_PYDANTIC\<close>; \<open>validate\<close> is
  \<open>ReconStateModel(**data)\<close> followed by \<open>_model_to_dict\<close>, as a function of the
  keyword arguments: \<open>None\<close> where pydantic raises \<open>ValidationError\<close>. The call
  \<open>ReconStateModel(**data)\<close> itself raises \<open>TypeError\<close> when \<open>data\<close> is not a mapping
  with string keys (\<open>str_keys\<close>), which \<open>except ValidationError\<close> does not catch. The
  text is the one of the gzip stream when decompressing and decoding succeed, else the
  one of the raw bytes.
\<close>

definition str_keys :: "(pyval \<times> pyval) list \<Rightarrow> (string \<times> pyval) list option" where
  "str_keys kvs = those (map (\<lambda>(k, v). case k of PStr s \<Rightarrow> Some (s, v) | _ \<Rightarrow> None) kvs)"

definition load_state ::
  "bool \<Rightarrow> ((string \<times> pyval) list \<Rightarrow> (string \<times> pyval) list option) \<Rightarrow> snapshot_file
   \<Rightarrow> exn + pyval" where
  "load_state has_pydantic validate snapshot =
     (case snapshot of
        Missing \<Rightarrow> Inr (PDict [])
      | Unreadable \<Rightarrow> Inr (PDict [])
      | Bytes gz raw \<Rightarrow>
          (case (case gz of DecodeError \<Rightarrow> raw | _ \<Rightarrow> gz) of
             DecodeError \<Rightarrow> Inr (PDict [])
           | JsonError \<Rightarrow> Inr (PDict [])
           | Parsed data \<Rightarrow>
               if has_pydantic then
                 (case data of
                    PDict kvs \<Rightarrow>
                      (case str_keys kvs of
                         None \<Rightarrow> Inl (TypeError ''keywords must be strings'')
                       | Some kwargs \<Rightarrow>
                           (case validate kwargs of
                              None \<Rightarrow> Inr (PDict [])
                            | Some model \<Rightarrow> Inr (PDict (map (\<lambda>(k, v). (PStr k, v)) model))))
                  | _ \<Rightarrow> Inl (TypeError ''argument after ** must be a mapping''))
               else
                 (case data of
                    PDict kvs \<Rightarrow> Inr data
                  | _ \<Rightarrow> Inr (PDict []))))"





chapter \<open>Properties\<close>

section \<open>Python floats\<close>

text \<open>
  Rounding is monotone and leaves a float as it is; a float scaled by a power of two is
  a float as long as it does not overflow.
\<close>

lemma round_even_mono: "q \<le> q' \<Longrightarrow> round_even q \<le> round_even q'"
proof -
  assume le: "q \<le> q'"
  have fl: "\<lfloor>q\<rfloor> \<le> \<lfloor>q'\<rfloor>"
    using le by (rule floor_mono)
  have lo: "\<lfloor>q'\<rfloor> \<le> round_even q'"
    by (simp add: round_even_def Let_def)
  have hi: "round_even q \<le> \<lfloor>q\<rfloor> + 1"
    by (simp add: round_even_def Let_def)
  show ?thesis
  proof (cases "\<lfloor>q\<rfloor> < \<lfloor>q'\<rfloor>")
    case True
    then show ?thesis
      using lo hi by linarith
  next
    case False
    then have eq: "\<lfloor>q'\<rfloor> = \<lfloor>q\<rfloor>"
      using fl by simp
    show ?thesis
      using le by (simp add: round_even_def Let_def eq)
  qed
qed

lemma round_even_of_int [simp]: "round_even (of_int n) = n"
  by (simp add: round_even_def)

lemma round_even_numeral [simp]: "round_even (numeral k) = numeral k"
  using round_even_of_int [of "numeral k"] by simp

lemma min_subnormal_pos: "0 < min_subnormal"
  by (simp add: min_subnormal_def)

lemma round_even_nonneg: "0 \<le> q \<Longrightarrow> 0 \<le> round_even q"
  using round_even_mono [of 0 q] round_even_of_int [of 0] by simp

lemma ulp_from_char:
  "u = 2 ^ n * min_subnormal \<Longrightarrow> n = 0 \<or> u * 2 ^ 52 \<le> x \<Longrightarrow> is_ulp (ulp_from u x) x"
proof (induction u x arbitrary: n rule: ulp_from.induct)
  case (1 u x)
  have pos: "0 < u"
    using "1.prems"(1) min_subnormal_pos by simp
  show ?case
  proof (cases "u * 2 ^ 53 \<le> x")
    case True
    have "is_ulp (ulp_from (2 * u) x) x"
    proof (rule "1.IH" [of "Suc n"])
      show "0 < u \<and> u * 2 ^ 53 \<le> x"
        using pos True by simp
      show "2 * u = 2 ^ Suc n * min_subnormal"
        using "1.prems"(1) by simp
      show "Suc n = 0 \<or> 2 * u * 2 ^ 52 \<le> x"
        using True by simp
    qed
    then show ?thesis
      using pos True by (subst ulp_from.simps) simp
  next
    case False
    have "ulp_from u x = u"
      using False by (subst ulp_from.simps) simp
    moreover have "is_ulp u x"
      unfolding is_ulp_def using "1.prems" False by (intro exI [of _ n]) simp
    ultimately show ?thesis
      by simp
  qed
qed

lemma ulp_is_ulp: "is_ulp (ulp x) x"
  unfolding ulp_def by (rule ulp_from_char [of _ 0]) simp_all

lemma is_ulp_pos: "is_ulp U x \<Longrightarrow> 0 < U"
  using min_subnormal_pos by (auto simp: is_ulp_def)

lemma is_ulp_le:
  assumes "is_ulp U x" "is_ulp V y" "x \<le> y"
  shows "U = V \<or> (2 * U \<le> V \<and> V * 2 ^ 52 \<le> y)"
proof -
  obtain n where n: "U = 2 ^ n * min_subnormal" "x < U * 2 ^ 53" "n = 0 \<or> U * 2 ^ 52 \<le> x"
    using assms(1) by (auto simp: is_ulp_def)
  obtain k where k: "V = 2 ^ k * min_subnormal" "y < V * 2 ^ 53" "k = 0 \<or> V * 2 ^ 52 \<le> y"
    using assms(2) by (auto simp: is_ulp_def)
  consider "k < n" | "n = k" | "n < k"
    by linarith
  then show ?thesis
  proof cases
    case 1
    then have "Suc k \<le> n"
      by simp
    then have "(2::real) ^ Suc k \<le> 2 ^ n"
      by (intro power_increasing) simp_all
    then have "2 * V \<le> U"
      using min_subnormal_pos by (simp add: n(1) k(1))
    moreover have "U * 2 ^ 52 \<le> x"
      using n(3) 1 by simp
    ultimately have "V * 2 ^ 53 \<le> y"
      using assms(3) by simp
    then show ?thesis
      using k(2) by simp
  next
    case 2
    then show ?thesis
      by (simp add: n(1) k(1))
  next
    case 3
    then have "Suc n \<le> k"
      by simp
    then have "(2::real) ^ Suc n \<le> 2 ^ k"
      by (intro power_increasing) simp_all
    then have "2 * U \<le> V"
      using min_subnormal_pos by (simp add: n(1) k(1))
    moreover have "V * 2 ^ 52 \<le> y"
      using k(3) 3 by simp
    ultimately show ?thesis
      by simp
  qed
qed

lemma is_ulp_unique:
  assumes "is_ulp U x" "is_ulp V x"
  shows "U = V"
proof (rule ccontr)
  assume ne: "U \<noteq> V"
  have a: "2 * U \<le> V \<and> V * 2 ^ 52 \<le> x"
    using is_ulp_le [OF assms(1) assms(2)] ne by simp
  have b: "2 * V \<le> U \<and> U * 2 ^ 52 \<le> x"
    using is_ulp_le [OF assms(2) assms(1)] ne by simp
  show False
    using a b is_ulp_pos [OF assms(1)] by simp
qed

lemma ulp_eq: "is_ulp U x \<Longrightarrow> ulp x = U"
  using is_ulp_unique [OF ulp_is_ulp] by simp

lemma round_mag_eq: "is_ulp U x \<Longrightarrow> round_mag x = of_int (round_even (x / U)) * U"
  by (simp add: round_mag_def ulp_eq)

lemma round_even_upper:
  assumes "is_ulp U x"
  shows "round_even (x / U) \<le> 2 ^ 53"
proof -
  have "x < U * 2 ^ 53"
    using assms by (auto simp: is_ulp_def)
  then have "x / U \<le> of_int (2 ^ 53)"
    using is_ulp_pos [OF assms] by (simp add: pos_divide_le_eq mult.commute)
  from round_even_mono [OF this] show ?thesis
    by simp
qed

lemma round_even_lower:
  assumes "is_ulp U x" "U * 2 ^ 52 \<le> x"
  shows "2 ^ 52 \<le> round_even (x / U)"
proof -
  have "of_int (2 ^ 52) \<le> x / U"
    using assms is_ulp_pos [OF assms(1)] by (simp add: pos_le_divide_eq mult.commute)
  from round_even_mono [OF this] show ?thesis
    by simp
qed

lemma round_mag_nonneg: "0 \<le> x \<Longrightarrow> 0 \<le> round_mag x"
  using ulp_is_ulp [of x] is_ulp_pos [of "ulp x" x]
  by (simp add: round_mag_def round_even_nonneg)

lemma round_mag_mono:
  assumes "x \<le> y"
  shows "round_mag x \<le> round_mag y"
proof -
  define U where "U = ulp x"
  define V where "V = ulp y"
  have U: "is_ulp U x" and V: "is_ulp V y"
    by (simp_all add: U_def V_def ulp_is_ulp)
  have Upos: "0 < U" and Vpos: "0 < V"
    using U V by (simp_all add: is_ulp_pos)
  have rx: "round_mag x = of_int (round_even (x / U)) * U"
    and ry: "round_mag y = of_int (round_even (y / V)) * V"
    by (simp_all add: round_mag_def U_def V_def)
  from is_ulp_le [OF U V assms] show ?thesis
  proof
    assume eq: "U = V"
    have "x / V \<le> y / V"
      using assms Vpos by (simp add: divide_right_mono)
    then have "round_even (x / V) \<le> round_even (y / V)"
      by (rule round_even_mono)
    then show ?thesis
      using Vpos by (simp add: rx ry eq)
  next
    assume far: "2 * U \<le> V \<and> V * 2 ^ 52 \<le> y"
    have "of_int (round_even (x / U)) \<le> (2 ^ 53 :: real)"
      using round_even_upper [OF U] by (metis of_int_le_iff of_int_numeral of_int_power)
    then have "round_mag x \<le> 2 ^ 53 * U"
      using Upos by (simp add: rx)
    also have "\<dots> \<le> 2 ^ 52 * V"
      using far by simp
    also have "\<dots> \<le> of_int (round_even (y / V)) * V"
    proof -
      have "(2 ^ 52 :: real) \<le> of_int (round_even (y / V))"
        using round_even_lower [OF V] far
        by (metis of_int_le_iff of_int_numeral of_int_power)
      then show ?thesis
        using Vpos by simp
    qed
    finally show ?thesis
      by (simp add: ry)
  qed
qed

lemma round_mag_fix:
  assumes "is_ulp U x" "x = of_int m * U"
  shows "round_mag x = x"
proof -
  have "x / U = of_int m"
    using assms(2) is_ulp_pos [OF assms(1)] by simp
  then show ?thesis
    using assms by (simp add: round_mag_eq)
qed

lemma round_mag_idem: "round_mag (round_mag x) = round_mag x"
proof -
  define U where "U = ulp x"
  define m where "m = round_even (x / U)"
  have U: "is_ulp U x"
    by (simp add: U_def ulp_is_ulp)
  have Upos: "0 < U"
    using U by (simp add: is_ulp_pos)
  have r: "round_mag x = of_int m * U"
    by (simp add: round_mag_def U_def m_def)
  obtain n where n: "U = 2 ^ n * min_subnormal" "x < U * 2 ^ 53" "n = 0 \<or> U * 2 ^ 52 \<le> x"
    using U by (auto simp: is_ulp_def)
  have up: "m \<le> 2 ^ 53"
    unfolding m_def by (rule round_even_upper [OF U])
  show ?thesis
  proof (cases "m = 2 ^ 53")
    case True
    have r2: "round_mag x = of_int (2 ^ 52) * (2 * U)"
      by (simp add: r True)
    have "is_ulp (2 * U) (round_mag x)"
      unfolding is_ulp_def
    proof (intro exI [of _ "Suc n"] conjI)
      show "2 * U = 2 ^ Suc n * min_subnormal"
        by (simp add: n(1))
      show "round_mag x < 2 * U * 2 ^ 53"
        using Upos by (simp add: r True)
      show "Suc n = 0 \<or> 2 * U * 2 ^ 52 \<le> round_mag x"
        by (simp add: r True)
    qed
    then show ?thesis
      using r2 by (rule round_mag_fix)
  next
    case False
    then have lt: "m < 2 ^ 53"
      using up by simp
    have "is_ulp U (round_mag x)"
      unfolding is_ulp_def
    proof (intro exI [of _ n] conjI)
      show "U = 2 ^ n * min_subnormal"
        by (rule n(1))
      have "(of_int m :: real) < of_int (2 ^ 53)"
        using lt by (simp only: of_int_less_iff)
      then show "round_mag x < U * 2 ^ 53"
        using Upos by (simp add: r mult.commute)
      show "n = 0 \<or> U * 2 ^ 52 \<le> round_mag x"
      proof (cases "n = 0")
        case True
        then show ?thesis
          by simp
      next
        case False
        then have "U * 2 ^ 52 \<le> x"
          using n(3) by simp
        then have "2 ^ 52 \<le> m"
          unfolding m_def by (rule round_even_lower [OF U])
        then have "(of_int (2 ^ 52) :: real) \<le> of_int m"
          by (simp only: of_int_le_iff)
        then show ?thesis
          using Upos by (simp add: r mult.commute)
      qed
    qed
    then show ?thesis
      using r by (rule round_mag_fix)
  qed
qed

lemma is_ulp_dyadic:
  assumes "U = 2 ^ a / 2 ^ b" "b \<le> a + 1074" "x < U * 2 ^ 53" "b = a + 1074 \<or> U * 2 ^ 52 \<le> x"
  shows "is_ulp U x"
  unfolding is_ulp_def
proof (intro exI [of _ "a + 1074 - b"] conjI)
  have "(2::real) ^ (a + 1074 - b) = 2 ^ (a + 1074) / 2 ^ b"
    using assms(2) by (simp add: power_diff)
  then show "U = 2 ^ (a + 1074 - b) * min_subnormal"
    by (simp add: assms(1) min_subnormal_def power_add)
  show "x < U * 2 ^ 53"
    by (rule assms(3))
  show "a + 1074 - b = 0 \<or> U * 2 ^ 52 \<le> x"
    using assms(2,4) by auto
qed

lemma round_mag_abs: "0 \<le> round_mag \<bar>x\<bar>"
  by (rule round_mag_nonneg) simp

lemma to_double_mono: "x \<le> y \<Longrightarrow> float_le (to_double x) (to_double y)"
proof -
  assume le: "x \<le> y"
  have nx: "0 \<le> round_mag \<bar>x\<bar>" and ny: "0 \<le> round_mag \<bar>y\<bar>"
    by (rule round_mag_abs)+
  consider "0 \<le> x" | "x < 0" "0 \<le> y" | "y < 0"
    using le by linarith
  then show ?thesis
  proof cases
    case 1
    then have "\<bar>x\<bar> \<le> \<bar>y\<bar>"
      using le by simp
    then have "round_mag \<bar>x\<bar> \<le> round_mag \<bar>y\<bar>"
      by (rule round_mag_mono)
    then show ?thesis
      using 1 le by (simp add: to_double_def Let_def)
  next
    case 2
    then show ?thesis
      using nx ny by (simp add: to_double_def Let_def)
  next
    case 3
    then have "\<bar>y\<bar> \<le> \<bar>x\<bar>"
      using le by simp
    then have "round_mag \<bar>y\<bar> \<le> round_mag \<bar>x\<bar>"
      by (rule round_mag_mono)
    then show ?thesis
      using 3 le by (simp add: to_double_def Let_def)
  qed
qed

lemma to_double_Fin:
  "to_double x = Fin y \<Longrightarrow> \<bar>y\<bar> = round_mag \<bar>x\<bar> \<and> round_mag \<bar>x\<bar> < 2 ^ 1024
      \<and> (x < 0 \<longrightarrow> y \<le> 0) \<and> (0 \<le> x \<longrightarrow> 0 \<le> y)"
  using round_mag_abs [of x]
  by (auto simp: to_double_def Let_def split: if_splits)

lemma to_double_idem: "to_double x = Fin y \<Longrightarrow> to_double y = Fin y"
proof -
  assume a: "to_double x = Fin y"
  have y: "\<bar>y\<bar> = round_mag \<bar>x\<bar>" "round_mag \<bar>x\<bar> < 2 ^ 1024"
    using to_double_Fin [OF a] by simp_all
  have "round_mag \<bar>y\<bar> = \<bar>y\<bar>"
    by (simp add: y(1) round_mag_idem)
  then show ?thesis
    using y by (auto simp: to_double_def Let_def)
qed

lemma is_double_round_mag: "is_double x \<Longrightarrow> round_mag \<bar>x\<bar> = \<bar>x\<bar> \<and> \<bar>x\<bar> < 2 ^ 1024"
  unfolding is_double_def using to_double_Fin [of x x] by simp

lemma is_doubleI: "round_mag \<bar>x\<bar> = \<bar>x\<bar> \<Longrightarrow> \<bar>x\<bar> < 2 ^ 1024 \<Longrightarrow> is_double x"
  by (auto simp: is_double_def to_double_def Let_def)

lemma is_double_exact:
  assumes "is_ulp U \<bar>x\<bar>" "\<bar>x\<bar> = of_int m * U" "\<bar>x\<bar> < 2 ^ 1024"
  shows "is_double x"
  using round_mag_fix [OF assms(1,2)] assms(3) by (rule is_doubleI)

lemma to_double_round:
  assumes "0 \<le> x" "is_ulp U x" "of_int (round_even (x / U)) * U = r" "r < 2 ^ 1024"
  shows "to_double x = Fin r"
  using assms round_mag_eq [OF assms(2)] by (simp add: to_double_def Let_def)

lemma to_double_zero [simp]: "to_double 0 = Fin 0"
proof -
  have "is_ulp min_subnormal 0"
    unfolding is_ulp_def using min_subnormal_pos by (intro exI [of _ 0]) simp
  then have "round_mag 0 = 0"
    by (rule round_mag_fix [of _ _ 0]) simp
  then show ?thesis
    by (simp add: to_double_def)
qed

lemma is_double_scale:
  assumes "is_double x" "\<bar>x\<bar> * 2 ^ n < 2 ^ 1024"
  shows "is_double (x * 2 ^ n)"
proof -
  define a where "a = \<bar>x\<bar>"
  define U where "U = ulp a"
  define m where "m = round_even (a / U)"
  have fx: "round_mag a = a"
    using is_double_round_mag [OF assms(1)] by (simp add: a_def)
  have U: "is_ulp U a"
    by (simp add: U_def ulp_is_ulp)
  have am: "a = of_int m * U"
    using fx by (simp add: round_mag_def U_def m_def)
  obtain i where i: "U = 2 ^ i * min_subnormal" "a < U * 2 ^ 53"
    using U by (auto simp: is_ulp_def)
  define V where "V = ulp (a * 2 ^ n)"
  have V: "is_ulp V (a * 2 ^ n)"
    by (simp add: V_def ulp_is_ulp)
  obtain j where j: "V = 2 ^ j * min_subnormal" "j = 0 \<or> V * 2 ^ 52 \<le> a * 2 ^ n"
    using V by (auto simp: is_ulp_def)
  have le: "j \<le> i + n"
  proof (rule ccontr)
    assume "\<not> j \<le> i + n"
    then have gt: "Suc (i + n) \<le> j"
      by simp
    then have "V * 2 ^ 52 \<le> a * 2 ^ n"
      using j(2) by auto
    also have "\<dots> < U * 2 ^ 53 * 2 ^ n"
      using i(2) by simp
    also have "\<dots> = 2 ^ Suc (i + n) * min_subnormal * 2 ^ 52"
      by (simp add: i(1) power_add)
    also have "\<dots> \<le> 2 ^ j * min_subnormal * 2 ^ 52"
    proof -
      have "(2::real) ^ Suc (i + n) \<le> 2 ^ j"
        using gt by (intro power_increasing) simp_all
      then show ?thesis
        using min_subnormal_pos by simp
    qed
    finally show False
      by (simp add: j(1))
  qed
  have "(2::real) ^ (i + n) = 2 ^ (i + n - j) * 2 ^ j"
    using le by (simp flip: power_add)
  then have "a * 2 ^ n = of_int (m * 2 ^ (i + n - j)) * V"
    by (simp add: am i(1) j(1) power_add)
  then have "round_mag (a * 2 ^ n) = a * 2 ^ n"
    using V by (intro round_mag_fix)
  moreover have "\<bar>x * 2 ^ n\<bar> = a * 2 ^ n"
    by (simp add: a_def abs_mult)
  ultimately show ?thesis
    using assms(2) by (intro is_doubleI) (simp_all add: a_def)
qed

lemma is_float_to_double [simp]: "is_float (to_double x)"
  by (auto simp: is_float_def is_double_def to_double_idem split: pyfloat.splits)

lemma is_double_zero [simp]: "is_double 0"
  by (simp add: is_double_def)

lemma is_double_normal:
  assumes "b \<le> a + 1074" "\<bar>x\<bar> = of_int m * (2 ^ a / 2 ^ b)" "2 ^ 52 \<le> m" "m < 2 ^ 53"
    "\<bar>x\<bar> < 2 ^ 1024"
  shows "is_double x"
proof -
  define U :: real where "U = 2 ^ a / 2 ^ b"
  have Upos: "0 < U"
    by (simp add: U_def)
  have x: "\<bar>x\<bar> = of_int m * U"
    by (simp add: assms(2) U_def)
  have lo: "(of_int (2 ^ 52) :: real) \<le> of_int m"
    using assms(3) by (simp only: of_int_le_iff)
  have hi: "(of_int m :: real) < of_int (2 ^ 53)"
    using assms(4) by (simp only: of_int_less_iff)
  have "is_ulp U \<bar>x\<bar>"
  proof (rule is_ulp_dyadic [OF U_def assms(1)])
    show "\<bar>x\<bar> < U * 2 ^ 53"
      using hi Upos by (simp add: x mult.commute)
    show "b = a + 1074 \<or> U * 2 ^ 52 \<le> \<bar>x\<bar>"
      using lo Upos by (simp add: x mult.commute)
  qed
  then show ?thesis
    using x assms(5) by (rule is_double_exact)
qed

lemma is_double_one: "is_double 1"
  by (rule is_double_normal [of 52 0 _ "2 ^ 52"]) simp_all

lemma is_double_pow2: "n \<le> 1023 \<Longrightarrow> is_double (2 ^ n)"
proof -
  assume "n \<le> 1023"
  then have "n < 1024"
    by simp
  then have "(2::real) ^ n < 2 ^ 1024"
    by (intro power_strict_increasing) simp_all
  then have "is_double (1 * 2 ^ n)"
    by (intro is_double_scale is_double_one) simp
  then show ?thesis
    by simp
qed

lemma to_double_overflow: "2 ^ 1024 \<le> x \<Longrightarrow> to_double x = PInf"
proof -
  assume le: "2 ^ 1024 \<le> x"
  have "is_ulp (2 ^ 972 / 2 ^ 0) (2 ^ 1024)"
    by (rule is_ulp_dyadic [of _ 972 0]) simp_all
  then have "round_mag (2 ^ 1024) = 2 ^ 1024"
    by (rule round_mag_fix [of _ _ "2 ^ 52"]) simp
  moreover have "round_mag (2 ^ 1024) \<le> round_mag \<bar>x\<bar>"
    using le by (intro round_mag_mono) simp
  ultimately have "2 ^ 1024 \<le> round_mag \<bar>x\<bar>"
    by simp
  moreover have "\<not> x < 0"
    using le by (simp add: not_less order_trans [of 0 "2 ^ 1024"])
  ultimately show ?thesis
    by (simp add: to_double_def Let_def)
qed

lemma pow2_small: "0 \<le> e \<Longrightarrow> e \<le> 1023 \<Longrightarrow> pow2 e = Inr (Fin (2 ^ nat e))"
proof -
  assume "0 \<le> e" "e \<le> 1023"
  then have "is_double (2 ^ nat e)"
    by (intro is_double_pow2) simp
  then show ?thesis
    using \<open>0 \<le> e\<close> by (simp add: pow2_def float_of_int_def is_double_def)
qed

lemma pow2_large:
  "1024 \<le> e \<Longrightarrow> pow2 e = Inl (OverflowError ''int too large to convert to float'')"
proof -
  assume le: "1024 \<le> e"
  then have "1024 \<le> nat e"
    by simp
  then have "(2::real) ^ 1024 \<le> 2 ^ nat e"
    by (intro power_increasing) simp_all
  then have "to_double (2 ^ nat e) = PInf"
    by (rule to_double_overflow)
  then show ?thesis
    using le by (simp add: pow2_def float_of_int_def)
qed

lemma float_le_between:
  "float_le (Fin lo) a \<Longrightarrow> float_le a (Fin hi) \<Longrightarrow> \<exists>t. a = Fin t \<and> lo \<le> t \<and> t \<le> hi"
  by (cases a) simp_all

lemma uniform_zero:
  assumes "is_double j" "0 \<le> j" "0 \<le> u" "u \<le> 1"
  shows "\<exists>t. uniform (Fin 0) (Fin j) (Fin u) = Fin t \<and> 0 \<le> t \<and> t \<le> j \<and> is_double t
            \<and> (j = 0 \<longrightarrow> t = 0)"
proof -
  have sub: "float_sub (Fin j) (Fin 0) = Fin j"
    using assms(1) by (simp add: float_sub_def is_double_def)
  have "0 \<le> j * u" "j * u \<le> j"
    using assms(2-4) by (simp_all add: mult_left_le)
  then have "float_le (to_double 0) (to_double (j * u))"
    "float_le (to_double (j * u)) (to_double j)"
    by (simp_all only: to_double_mono)
  then have "float_le (Fin 0) (to_double (j * u))" "float_le (to_double (j * u)) (Fin j)"
    using assms(1) by (simp_all add: is_double_def)
  from float_le_between [OF this] obtain t
    where t: "to_double (j * u) = Fin t" "0 \<le> t" "t \<le> j"
    by blast
  have dt: "is_double t"
    using to_double_idem [OF t(1)] by (simp add: is_double_def)
  have "uniform (Fin 0) (Fin j) (Fin u) = Fin t"
    using dt by (simp add: uniform_def sub t(1) is_double_def)
  then show ?thesis
    using t dt assms(2) by auto
qed

lemma float_le_refl: "a \<noteq> NaN \<Longrightarrow> float_le a a"
  by (cases a) simp_all

lemma float_add_mono:
  assumes "is_float a" "a \<noteq> NaN" "0 \<le> t" "t \<le> j"
  shows "float_le a (float_add a (Fin t)) \<and> float_le (float_add a (Fin t)) (float_add a (Fin j))
       \<and> float_add a (Fin 0) = a"
proof (cases a)
  case (Fin x)
  have dx: "to_double x = Fin x"
    using assms(1) Fin by (simp add: is_float_def is_double_def)
  have "float_le (to_double x) (to_double (x + t))"
    "float_le (to_double (x + t)) (to_double (x + j))"
    using assms(3,4) by (simp_all add: to_double_mono)
  then show ?thesis
    using dx by (simp add: Fin)
qed (use assms in simp_all)

lemma is_double_half: "is_double (1 / 2)"
  by (rule is_double_normal [of 53 0 _ "2 ^ 52"]) simp_all

lemma is_double_two: "is_double 2"
  by (rule is_double_normal [of 52 1 _ "2 ^ 52"]) simp_all

lemma is_double_five: "is_double (- 5)"
  by (rule is_double_normal [of 50 0 _ "5 * 2 ^ 50"]) simp_all

lemma is_double_quarter: "is_double (1 / 4)"
  by (rule is_double_normal [of 54 0 _ "2 ^ 52"]) simp_all

lemma is_double_twenty: "is_double 20"
  by (rule is_double_normal [of 48 0 _ "5 * 2 ^ 50"]) simp_all

lemma is_double_below_one: "is_double (1 - 1 / 2 ^ 53)"
  by (rule is_double_normal [of 53 0 _ "2 ^ 53 - 1"]) simp_all

lemma to_double_tenth: "to_double (1 / 10) = Fin (3602879701896397 / 36028797018963968)"
proof (rule to_double_round [of _ "2 ^ 0 / 2 ^ 56"])
  show "is_ulp (2 ^ 0 / 2 ^ 56) (1 / 10)"
    by (rule is_ulp_dyadic [of _ 0 56]) simp_all
  show "real_of_int (round_even (1 / 10 / (2 ^ 0 / 2 ^ 56))) * (2 ^ 0 / 2 ^ 56)
          = 3602879701896397 / 36028797018963968"
    by (simp add: round_even_def Let_def)
qed simp_all

lemma to_double_fifth: "to_double (1 / 5) = Fin (3602879701896397 / 18014398509481984)"
proof (rule to_double_round [of _ "2 ^ 0 / 2 ^ 55"])
  show "is_ulp (2 ^ 0 / 2 ^ 55) (1 / 5)"
    by (rule is_ulp_dyadic [of _ 0 55]) simp_all
  show "real_of_int (round_even (1 / 5 / (2 ^ 0 / 2 ^ 55))) * (2 ^ 0 / 2 ^ 55)
          = 3602879701896397 / 18014398509481984"
    by (simp add: round_even_def Let_def)
qed simp_all

lemma to_double_tie: "to_double (3 / 2 - 1 / 2 ^ 53) = Fin (3 / 2)"
proof (rule to_double_round [of _ "2 ^ 0 / 2 ^ 52"])
  show "is_ulp (2 ^ 0 / 2 ^ 52) (3 / 2 - 1 / 2 ^ 53)"
    by (rule is_ulp_dyadic [of _ 0 52]) simp_all
  show "real_of_int (round_even ((3 / 2 - 1 / 2 ^ 53) / (2 ^ 0 / 2 ^ 52))) * (2 ^ 0 / 2 ^ 52)
          = 3 / 2"
    by (simp add: round_even_def Let_def)
qed simp_all

lemma to_double_below_one:
  "to_double (9007199254740991 / 9007199254740992) = Fin (9007199254740991 / 9007199254740992)"
  using is_double_below_one by (simp add: is_double_def)

lemma to_double_tie_num: "to_double (13510798882111487 / 9007199254740992) = Fin (3 / 2)"
  using to_double_tie by simp

lemmas double_values =
  is_double_half [unfolded is_double_def] is_double_two [unfolded is_double_def]
  is_double_one [unfolded is_double_def] is_double_five [unfolded is_double_def]
  is_double_quarter [unfolded is_double_def] is_double_twenty [unfolded is_double_def]
  to_double_below_one to_double_tie_num
  to_double_tenth to_double_fifth
  to_double_idem [OF to_double_tenth] to_double_idem [OF to_double_fifth]

lemma to_double_not_nan: "to_double x \<noteq> NaN"
  by (simp add: to_double_def Let_def)


section \<open>DecisionEngine\<close>

text \<open>
  C9. The rules of \<open>DecisionEngine.evaluate\<close> fire independently: a task is in the
  result exactly when its own rule holds. In particular a probe result with status 403
  yields a bypass task, and one with status 200 and a positive content length yields
  both a content-analysis task and a fuzzing task.
\<close>

theorem evaluate_rules_fire:
  "(t \<in> set (evaluate pr) \<longleftrightarrow>
      (t = \<lparr>task_type = ''403_BYPASS'', args = None\<rparr> \<and> ProbeResult.status_code pr = Some 403)
    \<or> (t = \<lparr>task_type = ''NUCLEI_SCAN'', args = Some [''jenkins-cves'']\<rparr>
         \<and> ''Jenkins'' \<in> set (technologies pr))
    \<or> (t = \<lparr>task_type = ''WP_SCAN'', args = None\<rparr> \<and> ''WordPress'' \<in> set (technologies pr))
    \<or> (t = \<lparr>task_type = ''JS_ANALYSIS'', args = None\<rparr> \<and> ProbeResult.status_code pr = Some 200
         \<and> (\<exists>n. content_length pr = Some n \<and> 0 < n))
    \<or> (t = \<lparr>task_type = ''FUZZING'', args = None\<rparr> \<and> ProbeResult.status_code pr = Some 200))
   \<and> (ProbeResult.status_code pr = Some 403 \<longrightarrow>
        \<lparr>task_type = ''403_BYPASS'', args = None\<rparr> \<in> set (evaluate pr))
   \<and> (ProbeResult.status_code pr = Some 200 \<and> content_length pr = Some n \<and> 0 < n \<longrightarrow>
        \<lparr>task_type = ''JS_ANALYSIS'', args = None\<rparr> \<in> set (evaluate pr)
      \<and> \<lparr>task_type = ''FUZZING'', args = None\<rparr> \<in> set (evaluate pr))"
  by (auto simp: evaluate_def Let_def split: option.splits)

theorem evaluate_rules_fire_witness:
  "\<lparr>task_type = ''403_BYPASS'', args = None\<rparr>
     \<in> set (evaluate \<lparr>ProbeResult.status_code = Some 403, title = None, server = None,
                        content_length = None, technologies = []\<rparr>)
   \<and> \<lparr>task_type = ''JS_ANALYSIS'', args = None\<rparr>
     \<in> set (evaluate \<lparr>ProbeResult.status_code = Some 200, title = None, server = None,
                        content_length = Some 120, technologies = []\<rparr>)
   \<and> \<lparr>task_type = ''FUZZING'', args = None\<rparr>
     \<in> set (evaluate \<lparr>ProbeResult.status_code = Some 200, title = None, server = None,
                        content_length = Some 120, technologies = []\<rparr>)"
  using evaluate_rules_fire
          [of "\<lparr>task_type = ''403_BYPASS'', args = None\<rparr>"
              "\<lparr>ProbeResult.status_code = Some 403, title = None, server = None,
                content_length = None, technologies = []\<rparr>" 1]
        evaluate_rules_fire
          [of "\<lparr>task_type = ''FUZZING'', args = None\<rparr>"
              "\<lparr>ProbeResult.status_code = Some 200, title = None, server = None,
                content_length = Some 120, technologies = []\<rparr>" 120]
  by simp

section \<open>HttpClient\<close>

lemma py_max_zero: "py_max (Fin 0) (Fin j) = Fin (max 0 j)"
  by (simp add: py_max_def max_def)

lemma compute_backoff_small:
  assumes "1 \<le> k" "k \<le> 1024"
  shows "compute_backoff k (Fin b) (Fin j) (Fin u)
           = Inr (float_add (to_double (b * 2 ^ nat (k - 1)))
                    (uniform (Fin 0) (Fin (max 0 j)) (Fin u)))"
  using assms by (simp add: compute_backoff_def pow2_small py_max_zero)

text \<open>
  C8, as amended. The backoff factor \<open>b\<close> and the jitter \<open>j\<close> are finite floats and
  \<open>u\<close> is a draw of [0, 1). For an attempt \<open>k\<close> from 1 to 1024 the routine returns a
  delay. The base is the float product of \<open>b\<close> and \<open>2 ^ (k - 1)\<close>, which is exactly
  \<open>b * 2 ^ (k - 1)\<close> unless that overflows. The delay is at least the base and at most
  the float sum of the base and \<open>max(0.0, j)\<close>, in the order of floats; it is equal to
  the base when the jitter is zero or negative. From attempt 1025 on, the integer
  \<open>2 ** (k - 1)\<close> does not convert to a float and the routine raises
  \<open>OverflowError\<close>.
\<close>

theorem compute_backoff_bounds:
  assumes "1 \<le> k" "is_double b" "is_double j" "0 \<le> u" "u < 1"
  shows "(k \<le> 1024 \<longrightarrow>
            (\<exists>d. compute_backoff k (Fin b) (Fin j) (Fin u) = Inr d
               \<and> float_le (to_double (b * 2 ^ nat (k - 1))) d
               \<and> float_le d (float_add (to_double (b * 2 ^ nat (k - 1))) (Fin (max 0 j)))
               \<and> (j \<le> 0 \<longrightarrow> d = to_double (b * 2 ^ nat (k - 1)))))
       \<and> (\<bar>b\<bar> * 2 ^ nat (k - 1) < 2 ^ 1024 \<longrightarrow>
            to_double (b * 2 ^ nat (k - 1)) = Fin (b * 2 ^ nat (k - 1)))
       \<and> (1025 \<le> k \<longrightarrow>
            compute_backoff k (Fin b) (Fin j) (Fin u)
              = Inl (OverflowError ''int too large to convert to float''))"
proof (intro conjI impI)
  define B where "B = to_double (b * 2 ^ nat (k - 1))"
  have jm: "is_double (max 0 j)" "0 \<le> max 0 j"
    using assms(3) by (simp_all add: max_def)
  from uniform_zero [OF jm assms(4)] assms(5) obtain t
    where t: "uniform (Fin 0) (Fin (max 0 j)) (Fin u) = Fin t" "0 \<le> t" "t \<le> max 0 j"
      "max 0 j = 0 \<longrightarrow> t = 0"
    by auto
  have B: "is_float B" "B \<noteq> NaN"
    by (simp_all add: B_def to_double_not_nan)
  note mono = float_add_mono [OF B t(2,3)]
  {
    assume k: "k \<le> 1024"
    have d: "compute_backoff k (Fin b) (Fin j) (Fin u) = Inr (float_add B (Fin t))"
      using compute_backoff_small [OF assms(1) k] by (simp add: B_def t(1))
    have z: "j \<le> 0 \<longrightarrow> float_add B (Fin t) = B"
      using t(4) mono by (auto simp: max_def)
    show "\<exists>d. compute_backoff k (Fin b) (Fin j) (Fin u) = Inr d
            \<and> float_le (to_double (b * 2 ^ nat (k - 1))) d
            \<and> float_le d (float_add (to_double (b * 2 ^ nat (k - 1))) (Fin (max 0 j)))
            \<and> (j \<le> 0 \<longrightarrow> d = to_double (b * 2 ^ nat (k - 1)))"
      using d mono z unfolding B_def by blast
  }
  {
    assume "\<bar>b\<bar> * 2 ^ nat (k - 1) < 2 ^ 1024"
    then have "is_double (b * 2 ^ nat (k - 1))"
      by (rule is_double_scale [OF assms(2)])
    then show "to_double (b * 2 ^ nat (k - 1)) = Fin (b * 2 ^ nat (k - 1))"
      by (simp add: is_double_def)
  }
  {
    assume "1025 \<le> k"
    then show "compute_backoff k (Fin b) (Fin j) (Fin u)
                 = Inl (OverflowError ''int too large to convert to float'')"
      by (simp add: compute_backoff_def pow2_large)
  }
qed

lemma is_double_eighths: "is_double (17 / 8)" "is_double (9 / 4)" "is_double (1 / 8)"
proof -
  show "is_double (17 / 8)"
    by (rule is_double_normal [of 51 0 _ "17 * 2 ^ 48"]) simp_all
  show "is_double (9 / 4)"
    by (rule is_double_normal [of 51 0 _ "9 * 2 ^ 49"]) simp_all
  show "is_double (1 / 8)"
    by (rule is_double_normal [of 55 0 _ "2 ^ 52"]) simp_all
qed

theorem compute_backoff_bounds_witness:
  "(1::int) \<le> 3 \<and> is_double (1 / 2) \<and> is_double (1 / 4) \<and> (0::real) \<le> 1 / 2 \<and> (1 / 2 :: real) < 1
   \<and> compute_backoff 3 (Fin (1 / 2)) (Fin (1 / 4)) (Fin (1 / 2)) = Inr (Fin (17 / 8))
   \<and> float_le (Fin 2) (Fin (17 / 8)) \<and> float_le (Fin (17 / 8)) (Fin (9 / 4))
   \<and> float_add (Fin 2) (Fin (1 / 4)) = Fin (9 / 4)"
proof -
  have v: "compute_backoff 3 (Fin (1 / 2)) (Fin (1 / 4)) (Fin (1 / 2)) = Inr (Fin (17 / 8))"
    using is_double_eighths
    by (simp add: compute_backoff_def pow2_small py_max_def uniform_def float_sub_def
          double_values is_double_def)
  show ?thesis
    using compute_backoff_bounds [of 3 "1 / 2" "1 / 4" "1 / 2"] is_double_eighths
    by (simp add: is_double_half is_double_quarter double_values v is_double_def)
qed

text \<open>
  The claim's strict upper bound fails. With a jitter of 0 the delay of the first
  attempt is exactly the base \<open>1 / 2\<close>, not below \<open>base + jitter\<close>. With a jitter of
  1 and the largest draw \<open>1 - 2 ^ -53\<close> of \<open>random()\<close>, the sum
  \<open>1 / 2 + (1 - 2 ^ -53)\<close> lies halfway between two floats and rounds to \<open>3 / 2\<close>,
  which is \<open>base + jitter\<close>. At attempt 1025 there is no delay at all.
\<close>

theorem compute_backoff_upper_bound_counterexample:
  "compute_backoff 1 (Fin (1 / 2)) (Fin 0) (Fin 0) = Inr (Fin (1 / 2))
   \<and> \<not> ((1 / 2 :: real) < 1 / 2 * 2 ^ nat (1 - 1) + 0)
   \<and> compute_backoff 1 (Fin (1 / 2)) (Fin 1) (Fin (1 - 1 / 2 ^ 53)) = Inr (Fin (3 / 2))
   \<and> \<not> ((3 / 2 :: real) < 1 / 2 * 2 ^ nat (1 - 1) + 1)
   \<and> compute_backoff 1025 (Fin (1 / 2)) (Fin 0) (Fin 0)
       = Inl (OverflowError ''int too large to convert to float'')"
  by (simp add: compute_backoff_def pow2_small pow2_large py_max_def uniform_def
        float_sub_def double_values)

lemma decimal_float_minus5: "decimal_float ''-5'' = Some (Fin (- 5))"
  by (simp add: decimal_float_def unsigned_decimal_def is_digit_def digits_val_def
        double_values)

lemma decimal_float_2: "decimal_float ''2'' = Some (Fin 2)"
  by (simp add: decimal_float_def unsigned_decimal_def is_digit_def digits_val_def
        double_values)

lemma decimal_float_nan: "decimal_float ''nan'' = Some NaN"
  by (simp add: decimal_float_def)

text \<open>
  C7, as amended. When the \<open>Retry-After\<close> header is present, not empty, and
  \<open>float\<close> parses it to \<open>x\<close>, the delay is \<open>max(x, 0.1)\<close>: the header's value from
  0.1 up, infinity included, and 0.1 for every smaller value, negative ones included;
  for the value \<open>NaN\<close>, which no comparison orders, it is \<open>NaN\<close>. When the header is
  absent, empty or rejected by \<open>float\<close>, the delay is the one of the backoff formula.
\<close>

theorem retry_after_delay_cases:
  "(hdrs ''Retry-After'' = Some ra \<and> ra \<noteq> [] \<and> py_float ra = Some x \<longrightarrow>
      retry_after_delay py_float hdrs k b j u = Inr (py_max x (to_double (1 / 10))))
   \<and> (hdrs ''Retry-After'' = Some ra \<and> ra \<noteq> [] \<and> py_float ra = Some x
        \<and> float_le (to_double (1 / 10)) x \<longrightarrow>
      retry_after_delay py_float hdrs k b j u = Inr x)
   \<and> (hdrs ''Retry-After'' = Some ra \<and> ra \<noteq> [] \<and> py_float ra = Some x
        \<and> float_lt x (to_double (1 / 10)) \<longrightarrow>
      retry_after_delay py_float hdrs k b j u = Inr (to_double (1 / 10)))
   \<and> (hdrs ''Retry-After'' = Some ra \<and> ra \<noteq> [] \<and> py_float ra = Some NaN \<longrightarrow>
      retry_after_delay py_float hdrs k b j u = Inr NaN)
   \<and> (hdrs ''Retry-After'' = None \<or> hdrs ''Retry-After'' = Some []
        \<or> (hdrs ''Retry-After'' = Some ra \<and> py_float ra = None) \<longrightarrow>
      retry_after_delay py_float hdrs k b j u = compute_backoff k b j u)"
proof -
  have ge: "float_le (to_double (1 / 10)) x \<Longrightarrow> py_max x (to_double (1 / 10)) = x"
    by (cases x) (auto simp: py_max_def to_double_tenth)
  show ?thesis
    by (auto simp: retry_after_delay_def ge) (simp_all add: py_max_def)
qed

theorem retry_after_delay_cases_witness:
  "retry_after_delay decimal_float [''Retry-After'' \<mapsto> ''2''] 1 (Fin (1 / 2)) (Fin (1 / 4)) (Fin 0)
     = Inr (Fin 2)
   \<and> retry_after_delay decimal_float [''Retry-After'' \<mapsto> ''-5''] 1 (Fin (1 / 2)) (Fin (1 / 4)) (Fin 0)
     = Inr (to_double (1 / 10))
   \<and> retry_after_delay decimal_float [''Retry-After'' \<mapsto> ''nan''] 1 (Fin (1 / 2)) (Fin (1 / 4)) (Fin 0)
     = Inr NaN
   \<and> retry_after_delay decimal_float Map.empty 1 (Fin (1 / 2)) (Fin (1 / 4)) (Fin 0)
     = compute_backoff 1 (Fin (1 / 2)) (Fin (1 / 4)) (Fin 0)"
  using retry_after_delay_cases
          [of "[''Retry-After'' \<mapsto> ''2'']" "''2''" decimal_float "Fin 2" 1 "Fin (1 / 2)"
              "Fin (1 / 4)" "Fin 0"]
        retry_after_delay_cases
          [of "[''Retry-After'' \<mapsto> ''-5'']" "''-5''" decimal_float "Fin (- 5)" 1 "Fin (1 / 2)"
              "Fin (1 / 4)" "Fin 0"]
        retry_after_delay_cases
          [of "[''Retry-After'' \<mapsto> ''nan'']" "''nan''" decimal_float NaN 1 "Fin (1 / 2)"
              "Fin (1 / 4)" "Fin 0"]
        retry_after_delay_cases
          [of Map.empty "''x''" decimal_float NaN 1 "Fin (1 / 2)" "Fin (1 / 4)" "Fin 0"]
  by (simp add: decimal_float_minus5 decimal_float_2 decimal_float_nan to_double_tenth
        py_max_def)

text \<open>
  A \<open>Retry-After\<close> of \<open>-5\<close> does not parse as a non-negative number, and the delay is
  the float 0.1, not the \<open>1 / 2\<close> of the backoff formula.
\<close>

theorem retry_after_negative_counterexample:
  "retry_after_delay decimal_float [''Retry-After'' \<mapsto> ''-5''] 1 (Fin (1 / 2)) (Fin (1 / 4)) (Fin 0)
     = Inr (Fin (3602879701896397 / 36028797018963968))
   \<and> compute_backoff 1 (Fin (1 / 2)) (Fin (1 / 4)) (Fin 0) = Inr (Fin (1 / 2))
   \<and> retry_after_delay decimal_float [''Retry-After'' \<mapsto> ''-5''] 1 (Fin (1 / 2)) (Fin (1 / 4)) (Fin 0)
       \<noteq> compute_backoff 1 (Fin (1 / 2)) (Fin (1 / 4)) (Fin 0)"
  by (simp add: retry_after_delay_def decimal_float_minus5 compute_backoff_def uniform_def
        pow2_small py_max_def float_sub_def double_values)

text \<open>
  C1. A client with three attempts, the default backoff factor 0.5, jitter 0.2 and timeout
  20.0, and throttling enabled, against a server that answers 429 at every attempt:
  \<open>request\<close> sleeps after each of the three answers and then raises the
  \<open>RuntimeError\<close> of its last line; the last 429 response is not returned.
\<close>

theorem request_429_exhaustion_raises:
  "request
     \<lparr>HttpClient.max_retries = 3, backoff_factor = to_double (1 / 2), jitter = to_double (1 / 5),
      default_timeout = to_double 20, throttle_on_429 = True\<rparr>
     decimal_float
     (\<lambda>attempt tmo. Inr \<lparr>HttpResponse.status_code = 429, headers = Map.empty,
                           text_body = [], url = ''http://a.test''\<rparr>)
     (\<lambda>attempt. Fin 0)
     \<lparr>req_method = ''GET'', HttpRequest.url = ''http://a.test'', timeout = None,
      max_retries = None, backoff_factor = None, jitter = None\<rparr>
   = ([Fin (1 / 2), Fin 1, Fin 2], Inl (RuntimeError ''HTTP request failed with no response''))"
  by (simp add: request_def Let_def try_attempt_def retry_after_delay_def compute_backoff_def
        uniform_def pow2_small py_max_def float_sub_def double_values)

text \<open>
  The sibling path: the same client against a server that answers 503 at every attempt
  returns the last response.
\<close>

lemma request_5xx_exhaustion_returns:
  "request
     \<lparr>HttpClient.max_retries = 3, backoff_factor = to_double (1 / 2), jitter = to_double (1 / 5),
      default_timeout = to_double 20, throttle_on_429 = True\<rparr>
     decimal_float
     (\<lambda>attempt tmo. Inr \<lparr>HttpResponse.status_code = 503, headers = Map.empty,
                           text_body = [], url = ''http://a.test''\<rparr>)
     (\<lambda>attempt. Fin 0)
     \<lparr>req_method = ''GET'', HttpRequest.url = ''http://a.test'', timeout = None,
      max_retries = None, backoff_factor = None, jitter = None\<rparr>
   = ([Fin (1 / 2), Fin 1], Inr \<lparr>HttpResponse.status_code = 503, headers = Map.empty,
                         text_body = [], url = ''http://a.test''\<rparr>)"
  by (simp add: request_def Let_def try_attempt_def compute_backoff_def uniform_def pow2_small
        py_max_def float_sub_def double_values)

section \<open>ReconContext.emit\<close>

lemma emit_keeps_settings:
  "progress_cb (emit rc now category val) = progress_cb rc"
  "event_path (emit rc now category val) = event_path rc"
  by (simp_all add: emit_def Let_def split: option.splits)

lemma emit_was_seen:
  "v \<noteq> [] \<Longrightarrow>
   was_seen (emit rc now category val) cat v
     = (was_seen rc cat v \<or> emits_pair cat v (now, category, val))"
  by (auto simp: emit_def Let_def was_seen_def emits_pair_def norm_category_def
           split: option.splits)

lemma emit_observer_count:
  "progress_cb rc \<Longrightarrow> v \<noteq> [] \<Longrightarrow>
   observer_count (emit rc now category val) cat v
     = observer_count rc cat v
       + (if emits_pair cat v (now, category, val) \<and> \<not> was_seen rc cat v then 1 else 0)"
  by (auto simp: emit_def Let_def was_seen_def emits_pair_def norm_category_def
                 observer_count_def split: option.splits)

lemma emit_sink_count:
  "event_path rc = Some path \<Longrightarrow> path \<noteq> [] \<Longrightarrow> v \<noteq> [] \<Longrightarrow>
   sink_count (emit rc now category val) cat v
     = sink_count rc cat v
       + (if emits_pair cat v (now, category, val) \<and> \<not> was_seen rc cat v then 1 else 0)"
  by (auto simp: emit_def Let_def was_seen_def emits_pair_def norm_category_def
                 sink_count_def split: option.splits)

lemma emit_all_counts:
  assumes "progress_cb rc" "event_path rc = Some path" "path \<noteq> []" "v \<noteq> []"
  shows "observer_count (emit_all rc calls) cat v
           = observer_count rc cat v
             + (if (\<exists>call \<in> set calls. emits_pair cat v call) \<and> \<not> was_seen rc cat v
                then 1 else 0)
       \<and> sink_count (emit_all rc calls) cat v
           = sink_count rc cat v
             + (if (\<exists>call \<in> set calls. emits_pair cat v call) \<and> \<not> was_seen rc cat v
                then 1 else 0)"
  using assms
proof (induction calls arbitrary: rc)
  case Nil
  then show ?case by simp
next
  case (Cons call calls)
  obtain now category val where call: "call = (now, category, val)"
    by (cases call) auto
  let ?rc1 = "emit rc now category val"
  have cb: "progress_cb ?rc1" and ep: "event_path ?rc1 = Some path"
    using Cons.prems by (simp_all add: emit_keeps_settings)
  note IH = Cons.IH [OF cb ep Cons.prems(3) Cons.prems(4)]
  have seen: "was_seen ?rc1 cat v = (was_seen rc cat v \<or> emits_pair cat v call)"
    using Cons.prems(4) by (simp add: emit_was_seen call)
  have oc: "observer_count ?rc1 cat v = observer_count rc cat v
       + (if emits_pair cat v call \<and> \<not> was_seen rc cat v then 1 else 0)"
    using Cons.prems by (simp add: emit_observer_count call)
  have sc: "sink_count ?rc1 cat v = sink_count rc cat v
       + (if emits_pair cat v call \<and> \<not> was_seen rc cat v then 1 else 0)"
    using Cons.prems by (simp add: emit_sink_count call)
  show ?case
    using IH seen oc sc by (auto simp: call)
qed


text \<open>
  C4, as amended. With an observer registered and an event path configured, for a
  non-empty value \<open>v\<close> and a category \<open>cat\<close> whose pair is not yet in the
  deduplication state: after any sequence of calls of \<open>emit\<close> of which at least one
  has a non-empty category that lowercases and trims to \<open>cat\<close> and the value \<open>v\<close>,
  the observer has been called with the pair exactly once more and the event sink
  written with it exactly once more, however many of the calls carry the pair.
\<close>

theorem emit_once_per_pair:
  assumes "progress_cb rc" "event_path rc = Some path" "path \<noteq> []"
    and "v \<noteq> []" "\<not> was_seen rc cat v"
    and "\<exists>call \<in> set calls. emits_pair cat v call"
  shows "observer_count (emit_all rc calls) cat v = observer_count rc cat v + 1
       \<and> sink_count (emit_all rc calls) cat v = sink_count rc cat v + 1"
  using emit_all_counts [OF assms(1-4), of calls cat] assms(5,6) by simp

lemma emits_pair_examples:
  "emits_pair ''subdomain'' ''a.test'' (0, ''Subdomain'', ''a.test'')"
  by code_simp

theorem emit_once_per_pair_witness:
  "observer_count
     (emit_all
        (new_context \<lparr>host = ''a.test'', ip = ''192.0.2.1'', url = ''http://a.test'',
                       mode = ''passive''\<rparr> [] True (Some ''events.jsonl''))
        [(0, ''Subdomain'', ''a.test''), (1, '' subdomain '', ''a.test''),
         (2, ''SUBDOMAIN'', ''a.test'')])
     ''subdomain'' ''a.test'' = 1
   \<and> sink_count
     (emit_all
        (new_context \<lparr>host = ''a.test'', ip = ''192.0.2.1'', url = ''http://a.test'',
                       mode = ''passive''\<rparr> [] True (Some ''events.jsonl''))
        [(0, ''Subdomain'', ''a.test''), (1, '' subdomain '', ''a.test''),
         (2, ''SUBDOMAIN'', ''a.test'')])
     ''subdomain'' ''a.test'' = 1"
  using emit_once_per_pair
          [of "new_context \<lparr>host = ''a.test'', ip = ''192.0.2.1'', url = ''http://a.test'',
                       mode = ''passive''\<rparr> [] True (Some ''events.jsonl'')"
              "''events.jsonl''" "''a.test''" "''subdomain''"
              "[(0, ''Subdomain'', ''a.test''), (1, '' subdomain '', ''a.test''),
                (2, ''SUBDOMAIN'', ''a.test'')]"]
        emits_pair_examples
  by (simp add: new_context_def was_seen_def observer_count_def sink_count_def)

text \<open>
  Two calls of \<open>emit\<close> with the empty category and the same value call the observer
  and write the event sink zero times, not once.
\<close>

theorem emit_empty_category_counterexample:
  "progress_calls
     (emit_all
        (new_context \<lparr>host = ''a.test'', ip = ''192.0.2.1'', url = ''http://a.test'',
                       mode = ''passive''\<rparr> [] True (Some ''events.jsonl''))
        [(0, '''', ''a.test''), (1, '''', ''a.test'')]) = []
   \<and> event_sink
     (emit_all
        (new_context \<lparr>host = ''a.test'', ip = ''192.0.2.1'', url = ''http://a.test'',
                       mode = ''passive''\<rparr> [] True (Some ''events.jsonl''))
        [(0, '''', ''a.test''), (1, '''', ''a.test'')]) = []"
  by (simp add: emit_def new_context_def)

text \<open>
  C10. A call of \<open>emit\<close> with an empty category or an empty value returns the context
  as it was: no call of the observer, no write to the event sink, no change of the
  deduplication state or of any other field.
\<close>

theorem emit_empty_is_noop:
  "category = [] \<or> val = [] \<Longrightarrow> emit rc now category val = rc"
  by (auto simp: emit_def)

theorem emit_empty_is_noop_witness:
  "emit (new_context \<lparr>host = ''a.test'', ip = ''192.0.2.1'', url = ''http://a.test'',
                       mode = ''passive''\<rparr> [] True (Some ''events.jsonl''))
        0 '''' ''a.test''
   = new_context \<lparr>host = ''a.test'', ip = ''192.0.2.1'', url = ''http://a.test'',
                       mode = ''passive''\<rparr> [] True (Some ''events.jsonl'')
   \<and> emit (new_context \<lparr>host = ''a.test'', ip = ''192.0.2.1'', url = ''http://a.test'',
                       mode = ''passive''\<rparr> [] True (Some ''events.jsonl''))
        0 ''subdomain'' ''''
   = new_context \<lparr>host = ''a.test'', ip = ''192.0.2.1'', url = ''http://a.test'',
                       mode = ''passive''\<rparr> [] True (Some ''events.jsonl'')"
  using emit_empty_is_noop
          [of "''''" "''a.test''"
              "new_context \<lparr>host = ''a.test'', ip = ''192.0.2.1'', url = ''http://a.test'',
                       mode = ''passive''\<rparr> [] True (Some ''events.jsonl'')" 0]
        emit_empty_is_noop
          [of "''subdomain''" "''''"
              "new_context \<lparr>host = ''a.test'', ip = ''192.0.2.1'', url = ''http://a.test'',
                       mode = ''passive''\<rparr> [] True (Some ''events.jsonl'')" 0]
  by simp

section \<open>run\_task\_queue\<close>

lemma uniq_from_append:
  "uniq_from A (xs @ ys) = uniq_from A xs @ uniq_from (A \<union> set xs) ys"
  by (induction xs arbitrary: A) (auto simp: insert_absorb)

lemma set_uniq_from: "set (uniq_from A xs) = set xs - A"
  by (induction xs arbitrary: A) auto

lemma distinct_uniq_from: "distinct (uniq_from A xs)"
  by (induction xs arbitrary: A) (auto simp: set_uniq_from)

lemma enqueue_new_frame:
  "seen (enqueue_new st eps) = seen st"
  "ctx (enqueue_new st eps) = ctx st"
  "probed (enqueue_new st eps) = probed st"
  by (induction eps arbitrary: st) auto

lemma enqueue_new_eq:
  "enqueue_new st eps
     = st\<lparr>queue := queue st @ uniq_from (seen st \<union> set (queue st)) eps,
          enqueued := enqueued st @ uniq_from (seen st \<union> set (queue st)) eps\<rparr>"
proof (induction eps arbitrary: st)
  case Nil
  then show ?case by simp
next
  case (Cons ep eps)
  show ?case
  proof (cases "ep \<notin> seen st \<and> ep \<notin> set (queue st)")
    case True
    then show ?thesis
      using Cons.IH [of "st\<lparr>queue := queue st @ [ep], enqueued := enqueued st @ [ep]\<rparr>"]
      by (simp add: Un_commute insert_commute Un_insert_left)
  next
    case False
    then show ?thesis
      using Cons.IH [of st] by auto
  qed
qed

lemma enqueue_new_queue:
  "queue (enqueue_new st eps) = queue st @ uniq_from (seen st \<union> set (queue st)) eps"
  by (subst enqueue_new_eq) simp

lemma queue_inv_append:
  assumes "queue_inv st" "set ys \<inter> (seen st \<union> set (queue st)) = {}" "distinct ys"
  shows "queue_inv (st\<lparr>queue := queue st @ ys, enqueued := enqueued st @ ys\<rparr>)"
proof -
  have E: "set (enqueued st) \<subseteq> seen st \<union> set (queue st)"
    using assms(1) by (auto simp: queue_inv_def)
  have u: "\<And>A. set ys \<inter> A = {} \<Longrightarrow> uniq_from A ys = ys"
    using assms(3)
  proof (induction ys)
    case Nil
    then show ?case by simp
  next
    case (Cons y ys)
    then show ?case by auto
  qed
  have 1: "uniq_from (set (enqueued st)) ys = ys"
    using E assms(2) by (intro u) auto
  have 2: "uniq_from (set (probed st) \<union> set (queue st)) ys = ys"
    using assms(1,2) by (intro u) (auto simp: queue_inv_def)
  show ?thesis
    using assms(1) 1 2 by (auto simp: queue_inv_def uniq_from_append)
qed

lemma queue_inv_enqueue_new:
  assumes "queue_inv st"
  shows "queue_inv (enqueue_new st eps)"
  unfolding enqueue_new_eq [of st eps]
  using assms by (intro queue_inv_append) (auto simp: set_uniq_from distinct_uniq_from)

lemma queue_inv_ctx [simp]: "queue_inv (st\<lparr>ctx := c\<rparr>) = queue_inv st"
  by (simp add: queue_inv_def)

lemma queue_inv_run_tasks:
  "queue_inv st \<Longrightarrow> queue_inv (run_tasks env target st tasks)"
  by (induction tasks arbitrary: st) (auto simp: Let_def queue_inv_enqueue_new)

lemma queue_inv_probe_target:
  assumes "queue_inv st" "queue st = target # rest" "target \<notin> seen st"
  shows "queue_inv (probe_target env target (st\<lparr>queue := rest\<rparr>))"
proof -
  have "queue_inv (st\<lparr>queue := rest, seen := insert target (seen st),
                      probed := probed st @ [target]\<rparr>)"
    using assms by (auto simp: queue_inv_def)
  then show ?thesis
    unfolding probe_target_def Let_def
    by (intro queue_inv_run_tasks) (simp add: queue_inv_def)
qed

lemma queue_inv_skip:
  assumes "queue_inv st" "queue st = target # rest" "target \<in> seen st"
  shows "queue_inv (st\<lparr>queue := rest\<rparr>)"
  using assms by (auto simp: queue_inv_def)

lemma queue_loop_partial:
  assumes "queue_loop env st = Some st'"
  shows "queue_inv st \<Longrightarrow> queue_inv st' \<and> queue st' = []"
  using assms
proof (induction rule: queue_loop.raw_induct [rotated, consumes 1])
  case (1 f env st st')
  show ?case
  proof (cases "queue st")
    case Nil
    then show ?thesis using 1 by simp
  next
    case (Cons target rest)
    show ?thesis
    proof (cases "target \<in> seen st")
      case True
      then show ?thesis
        using 1 Cons queue_inv_skip [of st target rest] by simp
    next
      case False
      then show ?thesis
        using 1 Cons queue_inv_probe_target [of st target rest env] by simp
    qed
  qed
qed

lemma execute_task_discovers:
  assumes "discovers_within env U"
  shows "set (new_endpoints (execute_task env task target c)) \<subseteq> set (new_endpoints c) \<union> U"
  using assms by (auto simp: execute_task_def Let_def discovers_within_def log_def)

lemma run_tasks_seen: "seen (run_tasks env target st tasks) = seen st"
  by (induction tasks arbitrary: st) (auto simp: Let_def enqueue_new_eq)

lemma run_tasks_probed: "probed (run_tasks env target st tasks) = probed st"
  by (induction tasks arbitrary: st) (auto simp: Let_def enqueue_new_eq)

lemma run_tasks_enqueued: "prefix (enqueued st) (enqueued (run_tasks env target st tasks))"
proof (induction tasks arbitrary: st)
  case Nil
  then show ?case by simp
next
  case (Cons task tasks)
  let ?c = "execute_task env task target (ctx st)"
  show ?case
  proof (cases "new_endpoints ?c = []")
    case True
    then show ?thesis
      using Cons.IH [of "st\<lparr>ctx := ?c\<rparr>"] by (simp add: Let_def)
  next
    case False
    let ?st2 = "(enqueue_new (st\<lparr>ctx := ?c\<rparr>) (new_endpoints ?c))\<lparr>ctx := ?c\<lparr>new_endpoints := []\<rparr>\<rparr>"
    have "prefix (enqueued st) (enqueued ?st2)"
      by (simp add: enqueue_new_eq)
    then show ?thesis
      using False Cons.IH [of ?st2] prefix_order.trans by (auto simp: Let_def)
  qed
qed

lemma run_tasks_bounded:
  assumes "discovers_within env U" "new_endpoints (ctx st) = []"
  shows "set (queue (run_tasks env target st tasks)) \<subseteq> set (queue st) \<union> U
       \<and> new_endpoints (ctx (run_tasks env target st tasks)) = []"
  using assms(2)
proof (induction tasks arbitrary: st)
  case Nil
  then show ?case by simp
next
  case (Cons task tasks)
  let ?c = "execute_task env task target (ctx st)"
  have sub: "set (new_endpoints ?c) \<subseteq> U"
    using execute_task_discovers [OF assms(1), of task target "ctx st"] Cons.prems by simp
  show ?case
  proof (cases "new_endpoints ?c = []")
    case True
    then show ?thesis
      using Cons.IH [of "st\<lparr>ctx := ?c\<rparr>"] by (simp add: Let_def)
  next
    case False
    let ?st2 = "(enqueue_new (st\<lparr>ctx := ?c\<rparr>) (new_endpoints ?c))\<lparr>ctx := ?c\<lparr>new_endpoints := []\<rparr>\<rparr>"
    have q: "set (queue ?st2) \<subseteq> set (queue st) \<union> U"
      using sub by (auto simp: enqueue_new_eq set_uniq_from)
    have "set (queue (run_tasks env target ?st2 tasks)) \<subseteq> set (queue ?st2) \<union> U
        \<and> new_endpoints (ctx (run_tasks env target ?st2 tasks)) = []"
      by (rule Cons.IH) simp
    then show ?thesis
      using False q by (auto simp: Let_def)
  qed
qed

lemma probe_target_seen: "seen (probe_target env target st) = insert target (seen st)"
  by (simp add: probe_target_def Let_def run_tasks_seen)

lemma probe_target_enqueued: "prefix (enqueued st) (enqueued (probe_target env target st))"
  unfolding probe_target_def Let_def
  by (rule prefix_order.trans [OF _ run_tasks_enqueued]) simp

lemma probe_target_bounded:
  assumes "discovers_within env U" "new_endpoints (ctx st) = []"
  shows "set (queue (probe_target env target st)) \<subseteq> set (queue st) \<union> U
       \<and> new_endpoints (ctx (probe_target env target st)) = []"
proof -
  have "\<And>st0. new_endpoints (ctx st0) = [] \<Longrightarrow> queue st0 = queue st \<Longrightarrow>
          set (queue (run_tasks env target st0 (evaluate (probe_url env target))))
            \<subseteq> set (queue st) \<union> U
        \<and> new_endpoints (ctx (run_tasks env target st0 (evaluate (probe_url env target)))) = []"
    using run_tasks_bounded [OF assms(1)] by metis
  then show ?thesis
    unfolding probe_target_def Let_def
    using assms(2) by (simp add: log_def)
qed

lemma queue_loop_enqueued:
  assumes "queue_loop env st = Some st'"
  shows "prefix (enqueued st) (enqueued st')"
  using assms
proof (induction rule: queue_loop.raw_induct [rotated, consumes 1])
  case (1 f env st st')
  show ?case
  proof (cases "queue st")
    case Nil
    then show ?thesis using 1 by simp
  next
    case (Cons target rest)
    show ?thesis
    proof (cases "target \<in> seen st")
      case True
      then show ?thesis
        using 1 Cons by fastforce
    next
      case False
      then have "prefix (enqueued (probe_target env target (st\<lparr>queue := rest\<rparr>))) (enqueued st')"
        using 1 Cons by simp
      then show ?thesis
        using probe_target_enqueued [of "st\<lparr>queue := rest\<rparr>" env target] prefix_order.trans
        by fastforce
    qed
  qed
qed

lemma queue_loop_terminates:
  assumes "finite U" "discovers_within env U"
  shows "new_endpoints (ctx st) = [] \<Longrightarrow> \<exists>st'. queue_loop env st = Some st'"
proof -
  define m where "m = (\<lambda>st :: queue_state. (card ((U \<union> set (queue st)) - seen st), length (queue st)))"
  have wf: "wf (inv_image (less_than <*lex*> less_than) m)"
    by (intro wf_inv_image wf_lex_prod wf_less_than)
  show "new_endpoints (ctx st) = [] \<Longrightarrow> \<exists>st'. queue_loop env st = Some st'"
  proof (induction st rule: wf_induct_rule [OF wf])
  case (1 st)
  show ?case
  proof (cases "queue st")
    case Nil
    then show ?thesis by (subst queue_loop.simps) simp
  next
    case (Cons target rest)
    show ?thesis
    proof (cases "target \<in> seen st")
      case True
      let ?st = "st\<lparr>queue := rest\<rparr>"
      have "card ((U \<union> set rest) - seen st) \<le> card ((U \<union> set (queue st)) - seen st)"
        using assms(1) Cons by (intro card_mono) auto
      then have "\<exists>st'. queue_loop env ?st = Some st'"
        using 1(2) Cons by (intro 1(1)) (auto simp: m_def)
      then show ?thesis
        using True Cons by (subst queue_loop.simps) simp
    next
      case False
      let ?st = "probe_target env target (st\<lparr>queue := rest\<rparr>)"
      have b: "set (queue ?st) \<subseteq> set rest \<union> U" "new_endpoints (ctx ?st) = []"
        using probe_target_bounded [OF assms(2), of "st\<lparr>queue := rest\<rparr>" target] 1(2) by auto
      have s: "seen ?st = insert target (seen st)"
        by (simp add: probe_target_seen)
      have "(U \<union> set (queue ?st)) - seen ?st \<subset> (U \<union> set (queue st)) - seen st"
        using b(1) s False Cons by auto
      then have "card ((U \<union> set (queue ?st)) - seen ?st) < card ((U \<union> set (queue st)) - seen st)"
        using assms(1) by (intro psubset_card_mono) auto
      then have "\<exists>st'. queue_loop env ?st = Some st'"
        using b(2) by (intro 1(1)) (auto simp: m_def)
      then show ?thesis
        using False Cons by (subst queue_loop.simps) simp
    qed
  qed
  qed
qed

text \<open>
  What holds of the loop for the targets as they are queued, the seeds normalized and
  the discovered endpoints as the modules report them. For every seed list and every
  behaviour of the probe and the modules: a run of \<open>run_task_queue\<close> that leaves its
  loop does so with the queue empty; the targets probed are pairwise distinct strings,
  and they are the targets put on the queue, in the order of their first enqueueing,
  the normalized seeds first. The endpoints a task reports are appended to the back of
  the queue in the order reported, those left out that are already seen or already
  queued. When the endpoints the modules can report lie in a finite set, the loop ends
  and \<open>run_task_queue\<close> returns.
\<close>

theorem run_task_queue_fifo_once:
  "(queue_loop env (initial_state seeds) = Some st' \<longrightarrow>
      queue st' = [] \<and> distinct (probed st')
      \<and> probed st' = first_occurrences (enqueued st')
      \<and> prefix (map normalize_target seeds) (enqueued st'))
   \<and> queue (enqueue_new st eps) = queue st @ uniq_from (seen st \<union> set (queue st)) eps
   \<and> (finite U \<and> discovers_within env U \<longrightarrow>
        (\<exists>st'. queue_loop env (initial_state seeds) = Some st')
        \<and> run_task_queue env seeds \<noteq> None)"
proof (intro conjI impI)
  have inv0: "queue_inv (initial_state seeds)"
    by (simp add: queue_inv_def initial_state_def)
  {
    assume run: "queue_loop env (initial_state seeds) = Some st'"
    have fin: "queue_inv st' \<and> queue st' = []"
      using queue_loop_partial [OF run inv0] .
    show "queue st' = []"
      using fin by simp
    show "distinct (probed st')"
      using fin by (simp add: queue_inv_def)
    show "probed st' = first_occurrences (enqueued st')"
      using fin by (simp add: queue_inv_def first_occurrences_def)
    show "prefix (map normalize_target seeds) (enqueued st')"
      using queue_loop_enqueued [OF run] by (simp add: initial_state_def)
  }
  show "queue (enqueue_new st eps) = queue st @ uniq_from (seen st \<union> set (queue st)) eps"
    by (rule enqueue_new_queue)
  {
    assume fin: "finite U \<and> discovers_within env U"
    have e: "new_endpoints (ctx (initial_state seeds)) = []"
      by (simp add: initial_state_def)
    show t: "\<exists>st'. queue_loop env (initial_state seeds) = Some st'"
      using queue_loop_terminates [of U env "initial_state seeds"] fin e by blast
    show "run_task_queue env seeds \<noteq> None"
      using t by (auto simp: run_task_queue_def)
  }
qed

lemma fixture_discovers:
  "discovers_within
     \<lparr>probe_url = (\<lambda>u. \<lparr>ProbeResult.status_code = Some 200, title = Some ''Home'',
                          server = None, content_length = Some 120, technologies = []\<rparr>),
      bypass_run = (\<lambda>t c. c),
      fuzzer_run = (\<lambda>t c. if t = ''http://a.test''
                           then c\<lparr>new_endpoints := new_endpoints c @ [''http://b.test'']\<rparr>
                           else c\<lparr>new_endpoints := new_endpoints c @ [''http://a.test'']\<rparr>),
      js_spider_run = (\<lambda>t c. c)\<rparr>
     {''http://a.test'', ''http://b.test''}"
  by (auto simp: discovers_within_def)

lemma fixture_run:
  "queue_loop
     \<lparr>probe_url = (\<lambda>u. \<lparr>ProbeResult.status_code = Some 200, title = Some ''Home'',
                          server = None, content_length = Some 120, technologies = []\<rparr>),
      bypass_run = (\<lambda>t c. c),
      fuzzer_run = (\<lambda>t c. if t = ''http://a.test''
                           then c\<lparr>new_endpoints := new_endpoints c @ [''http://b.test'']\<rparr>
                           else c\<lparr>new_endpoints := new_endpoints c @ [''http://a.test'']\<rparr>),
      js_spider_run = (\<lambda>t c. c)\<rparr>
     (initial_state [''http://a.test''])
   = Some \<lparr>queue = [], seen = {''http://b.test'', ''http://a.test''},
            ctx = \<lparr>TaskContext.findings = [], new_endpoints = [],
                   log_lines =
                     [''[Queue] Probing http://a.test'',
                      ''[Probe] http://a.test -> 200 Home'',
                      ''[Queue] 2 follow-up tasks for http://a.test'',
                      ''[Queue] Probing http://b.test'',
                      ''[Probe] http://b.test -> 200 Home'',
                      ''[Queue] 2 follow-up tasks for http://b.test'']\<rparr>,
            probed = [''http://a.test'', ''http://b.test''],
            enqueued = [''http://a.test'', ''http://b.test'']\<rparr>"
  by (simp add: queue_loop.simps initial_state_def probe_target_def evaluate_def Let_def
        execute_task_def log_def py_upper_def upper_char_def normalize_target_def
        startswith_def rstrip_chars_def show_status_def str_int_def str_nat.simps py_strip_def
        py_lstrip_def py_rstrip_def is_space_def insert_commute)
     code_simp

theorem run_task_queue_fifo_once_witness:
  "(\<exists>st'. queue_loop
     \<lparr>probe_url = (\<lambda>u. \<lparr>ProbeResult.status_code = Some 200, title = Some ''Home'',
                          server = None, content_length = Some 120, technologies = []\<rparr>),
      bypass_run = (\<lambda>t c. c),
      fuzzer_run = (\<lambda>t c. if t = ''http://a.test''
                           then c\<lparr>new_endpoints := new_endpoints c @ [''http://b.test'']\<rparr>
                           else c\<lparr>new_endpoints := new_endpoints c @ [''http://a.test'']\<rparr>),
      js_spider_run = (\<lambda>t c. c)\<rparr>
     (initial_state [''http://a.test'']) = Some st'
     \<and> queue st' = [] \<and> distinct (probed st')
     \<and> probed st' = [''http://a.test'', ''http://b.test'']
     \<and> probed st' = first_occurrences (enqueued st'))"
  using run_task_queue_fifo_once
          [where env = "\<lparr>probe_url = (\<lambda>u. \<lparr>ProbeResult.status_code = Some 200, title = Some ''Home'',
                          server = None, content_length = Some 120, technologies = []\<rparr>),
      bypass_run = (\<lambda>t c. c),
      fuzzer_run = (\<lambda>t c. if t = ''http://a.test''
                           then c\<lparr>new_endpoints := new_endpoints c @ [''http://b.test'']\<rparr>
                           else c\<lparr>new_endpoints := new_endpoints c @ [''http://a.test'']\<rparr>),
      js_spider_run = (\<lambda>t c. c)\<rparr>"
             and seeds = "[''http://a.test'']"
             and st' = "\<lparr>queue = [], seen = {''http://b.test'', ''http://a.test''},
            ctx = \<lparr>TaskContext.findings = [], new_endpoints = [],
                   log_lines =
                     [''[Queue] Probing http://a.test'',
                      ''[Probe] http://a.test -> 200 Home'',
                      ''[Queue] 2 follow-up tasks for http://a.test'',
                      ''[Queue] Probing http://b.test'',
                      ''[Probe] http://b.test -> 200 Home'',
                      ''[Queue] 2 follow-up tasks for http://b.test'']\<rparr>,
            probed = [''http://a.test'', ''http://b.test''],
            enqueued = [''http://a.test'', ''http://b.test'']\<rparr>"
             and U = "{''http://a.test'', ''http://b.test''}"]
        fixture_discovers fixture_run
  by simp

text \<open>
  C6. The seed \<open>http://a.test\<close> is probed with status 200 and the fuzzer reports the
  endpoint \<open>http://a.test/\<close>. Line 47 normalizes the seeds; lines 70 to 72 queue a
  discovered endpoint as it is reported and compare it as a string with \<open>seen\<close> and
  the queue. The endpoint is probed too, although it normalizes to the seed: one
  normalized target is probed twice in one run.
\<close>

theorem run_task_queue_probes_normalized_twice:
  "map_option probed
     (queue_loop
        \<lparr>probe_url = (\<lambda>u. \<lparr>ProbeResult.status_code = Some 200, title = None,
                             server = None, content_length = Some 0, technologies = []\<rparr>),
         bypass_run = (\<lambda>t c. c),
         fuzzer_run = (\<lambda>t c. if ''http://a.test/'' \<in> set (new_endpoints c) then c
                              else c\<lparr>new_endpoints := new_endpoints c @ [''http://a.test/'']\<rparr>),
         js_spider_run = (\<lambda>t c. c)\<rparr>
        (initial_state [''http://a.test'']))
     = Some [''http://a.test'', ''http://a.test/'']
   \<and> normalize_target ''http://a.test/'' = normalize_target ''http://a.test''
   \<and> \<not> distinct (map normalize_target [''http://a.test'', ''http://a.test/''])"
  by (simp add: queue_loop.simps initial_state_def probe_target_def evaluate_def Let_def
        execute_task_def log_def py_upper_def upper_char_def normalize_target_def
        startswith_def rstrip_chars_def show_status_def str_int_def str_nat.simps py_strip_def
        py_lstrip_def py_rstrip_def is_space_def insert_commute)

section \<open>\_resolve\_module\_layers\<close>

lemma graph_get_append:
  "graph_get (graph_append nm dep g) d
     = (if d = dep then graph_get g d @ [nm] else graph_get g d)"
  by (simp add: graph_append_def graph_get_def update_conv')

lemma graph_get_fold_append:
  "graph_get (fold (graph_append nm) ds g) d = graph_get g d @ replicate (count_list ds d) nm"
  by (induction ds arbitrary: g) (auto simp: graph_get_append replicate_append_same)

lemma graph_get_fold:
  "graph_get (fold (\<lambda>(nm, deps) g. fold (graph_append nm) deps g) dm g) d
     = graph_get g d @ dependents dm d"
  by (induction dm arbitrary: g) (auto simp: dependents_def graph_get_fold_append)

lemma graph_get_build_graph: "graph_get (build_graph dm) d = dependents dm d"
  by (simp add: build_graph_def graph_get_fold) (simp add: graph_get_def)

lemma set_dependents: "set (dependents dm d) \<subseteq> fst ` set dm"
  by (induction dm) (auto simp: dependents_def)

lemma count_dependents_notin:
  "nm \<notin> fst ` set dm \<Longrightarrow> count_list (dependents dm d) nm = 0"
  using set_dependents [of dm d] by (auto simp: count_list_0_iff)

lemma count_list_replicate: "count_list (replicate k x) y = (if x = y then k else 0)"
  by (induction k) auto

lemma count_dependents:
  "distinct (map fst dm) \<Longrightarrow>
   count_list (dependents dm d) nm = count_list (graph_get dm nm) d"
proof (induction dm)
  case Nil
  then show ?case by (simp add: dependents_def graph_get_def)
next
  case (Cons p dm)
  obtain n0 ds0 where p: "p = (n0, ds0)" by (cases p)
  have split: "dependents ((n0, ds0) # dm) d = replicate (count_list ds0 d) n0 @ dependents dm d"
    by (simp add: dependents_def)
  have IH: "count_list (dependents dm d) nm = count_list (graph_get dm nm) d"
    using Cons by simp
  show ?case
  proof (cases "nm = n0")
    case True
    then have "nm \<notin> fst ` set dm" using Cons.prems p by auto
    then have "count_list (dependents dm d) nm = 0"
      by (rule count_dependents_notin)
    moreover have "graph_get ((n0, ds0) # dm) n0 = ds0"
      by (simp add: graph_get_def)
    ultimately show ?thesis
      unfolding p split using True by (simp add: count_list_replicate)
  next
    case False
    then have "graph_get ((n0, ds0) # dm) nm = graph_get dm nm"
      by (simp add: graph_get_def)
    then show ?thesis
      unfolding p split using False IH by (simp add: count_list_replicate)
  qed
qed

lemma dec_dependents_char:
  assumes "set deps \<subseteq> fst ` set ind"
  shows "\<exists>ind' added. dec_dependents ind nr deps = Inr (ind', nr @ added)
           \<and> fst ` set ind' = fst ` set ind
           \<and> (\<forall>nm. map_of ind' nm
                  = map_option (\<lambda>v. v - int (count_list deps nm)) (map_of ind nm))
           \<and> distinct added
           \<and> set added = {nm \<in> set deps. \<exists>v. map_of ind nm = Some v \<and> 1 \<le> v
                                           \<and> v \<le> int (count_list deps nm)}"
  using assms
proof (induction deps arbitrary: ind nr)
  case Nil
  then show ?case by (simp add: option.map_ident)
next
  case (Cons dep deps)
  from Cons.prems have "dep \<in> fst ` set ind" by simp
  then obtain deg where deg: "map_of ind dep = Some deg"
    by (metis map_of_eq_None_iff not_None_eq)
  let ?ind = "AList.update dep (deg - 1) ind"
  let ?nr = "if deg - 1 = 0 then nr @ [dep] else nr"
  have keys: "fst ` set ?ind = fst ` set ind"
    using \<open>dep \<in> fst ` set ind\<close> by (auto simp: dom_update)
  have mo: "map_of ?ind = (map_of ind)(dep \<mapsto> deg - 1)"
    by (rule update_conv')
  have "set deps \<subseteq> fst ` set ?ind"
    using Cons.prems keys by auto
  from Cons.IH [OF this, of ?nr] obtain ind' added where
    run: "dec_dependents ?ind ?nr deps = Inr (ind', ?nr @ added)"
    and k: "fst ` set ind' = fst ` set ?ind"
    and v: "\<And>nm. map_of ind' nm
              = map_option (\<lambda>v. v - int (count_list deps nm)) (map_of ?ind nm)"
    and d: "distinct added"
    and s: "set added = {nm \<in> set deps. \<exists>v. map_of ?ind nm = Some v \<and> 1 \<le> v
                                           \<and> v \<le> int (count_list deps nm)}"
    by blast
  let ?added = "(if deg - 1 = 0 then [dep] else []) @ added"
  have 1: "dec_dependents ind nr (dep # deps) = Inr (ind', nr @ ?added)"
    using run deg by simp
  have 2: "map_of ind' nm
              = map_option (\<lambda>v. v - int (count_list (dep # deps) nm)) (map_of ind nm)" for nm
  proof (cases "nm = dep")
    case True
    then show ?thesis using v [of nm] deg by (simp add: mo)
  next
    case False
    then show ?thesis using v [of nm] by (simp add: mo)
  qed
  have dep_in: "dep \<in> set added \<longleftrightarrow> 2 \<le> deg \<and> deg \<le> int (count_list deps dep) + 1"
  proof -
    have "count_list deps dep = 0" if "dep \<notin> set deps"
      using that by (simp add: count_list_0_iff)
    then have "dep \<in> set deps" if "2 \<le> deg" "deg \<le> int (count_list deps dep) + 1"
      using that by (cases "dep \<in> set deps") auto
    then show ?thesis
      unfolding s by (auto simp: mo)
  qed
  have other_in: "nm \<in> set added \<longleftrightarrow>
        nm \<in> set deps \<and> (\<exists>v. map_of ind nm = Some v \<and> 1 \<le> v \<and> v \<le> int (count_list deps nm))"
    if "nm \<noteq> dep" for nm
    unfolding s using that by (simp add: mo)
  have 3: "distinct ?added"
    using d dep_in by auto
  have 4: "set ?added = {nm \<in> set (dep # deps). \<exists>v. map_of ind nm = Some v \<and> 1 \<le> v
                                           \<and> v \<le> int (count_list (dep # deps) nm)}"
    (is "?L = ?R")
  proof (rule set_eqI)
    fix nm
    show "nm \<in> ?L \<longleftrightarrow> nm \<in> ?R"
    proof (cases "nm = dep")
      case True
      have "nm \<in> ?L \<longleftrightarrow> deg = 1 \<or> (2 \<le> deg \<and> deg \<le> int (count_list deps dep) + 1)"
        using True dep_in by auto
      also have "\<dots> \<longleftrightarrow> 1 \<le> deg \<and> deg \<le> int (count_list deps dep) + 1"
        by auto
      also have "\<dots> \<longleftrightarrow> nm \<in> ?R"
        using True deg by simp arith
      finally show ?thesis .
    next
      case False
      then show ?thesis using other_in [OF False] by auto
    qed
  qed
  show ?case
    apply (rule exI [of _ ind'])
    apply (rule exI [of _ ?added])
    using 1 2 3 4 k keys apply simp
    done
qed

lemma length_filter_insert:
  "x \<notin> vis \<Longrightarrow>
   length (filter (\<lambda>d. d \<notin> vis) l) = length (filter (\<lambda>d. d \<notin> insert x vis) l) + count_list l x"
  by (induction l) auto

lemma remaining_insert:
  "x \<notin> vis \<Longrightarrow>
   remaining dm vis nm = remaining dm (insert x vis) nm + int (count_list (graph_get dm nm) x)"
  unfolding remaining_def using length_filter_insert [of x vis "graph_get dm nm"] by simp

lemma remaining_zero: "remaining dm vis nm = 0 \<longleftrightarrow> set (graph_get dm nm) \<subseteq> vis"
  by (auto simp: remaining_def filter_empty_conv)

lemma remaining_nonneg: "0 \<le> remaining dm vis nm"
  by (simp add: remaining_def)

lemma dec_step:
  assumes wf: "wf_deps dm" and ok: "ind_ok dm ind vis" and x: "x \<notin> vis"
  shows "\<exists>ind' added. dec_dependents ind nr (dependents dm x) = Inr (ind', nr @ added)
           \<and> ind_ok dm ind' (insert x vis)
           \<and> distinct added
           \<and> set added = {nm \<in> fst ` set dm. x \<in> set (graph_get dm nm)
                                      \<and> set (graph_get dm nm) \<subseteq> insert x vis}"
proof -
  have dist: "distinct (map fst dm)"
    using wf by (simp add: wf_deps_def)
  have keys: "fst ` set ind = fst ` set dm"
    using ok by (simp add: ind_ok_def)
  have val: "map_of ind nm = Some (remaining dm vis nm)" if "nm \<in> fst ` set dm" for nm
    using ok that unfolding ind_ok_def by blast
  have cnt: "count_list (dependents dm x) nm = count_list (graph_get dm nm) x" for nm
    using dist by (rule count_dependents)
  have sub: "set (dependents dm x) \<subseteq> fst ` set ind"
    using set_dependents [of dm x] keys by simp
  from dec_dependents_char [OF sub, of nr] obtain ind' added where
    run: "dec_dependents ind nr (dependents dm x) = Inr (ind', nr @ added)"
    and k: "fst ` set ind' = fst ` set ind"
    and v: "\<And>nm. map_of ind' nm
              = map_option (\<lambda>v. v - int (count_list (dependents dm x) nm)) (map_of ind nm)"
    and d: "distinct added"
    and s: "set added = {nm \<in> set (dependents dm x). \<exists>v. map_of ind nm = Some v \<and> 1 \<le> v
                                           \<and> v \<le> int (count_list (dependents dm x) nm)}"
    by blast
  have ok': "ind_ok dm ind' (insert x vis)"
    unfolding ind_ok_def
  proof (intro conjI ballI)
    show "fst ` set ind' = fst ` set dm" using k keys by simp
  next
    fix nm assume nm: "nm \<in> fst ` set dm"
    show "map_of ind' nm = Some (remaining dm (insert x vis) nm)"
      using v [of nm] val [OF nm] remaining_insert [OF x, of dm nm] by (simp add: cnt)
  qed
  have mem: "nm \<in> set (dependents dm x) \<longleftrightarrow> nm \<in> fst ` set dm \<and> x \<in> set (graph_get dm nm)"
    for nm
  proof
    assume a: "nm \<in> set (dependents dm x)"
    then have "count_list (dependents dm x) nm \<noteq> 0"
      by (simp add: count_list_0_iff)
    then have "x \<in> set (graph_get dm nm)"
      unfolding cnt by (simp add: count_list_0_iff)
    then show "nm \<in> fst ` set dm \<and> x \<in> set (graph_get dm nm)"
      using a set_dependents [of dm x] by auto
  next
    assume "nm \<in> fst ` set dm \<and> x \<in> set (graph_get dm nm)"
    then have "count_list (graph_get dm nm) x \<noteq> 0"
      by (simp add: count_list_0_iff)
    then show "nm \<in> set (dependents dm x)"
      unfolding cnt [symmetric] by (simp add: count_list_0_iff)
  qed
  have s': "set added = {nm \<in> fst ` set dm. x \<in> set (graph_get dm nm)
                                      \<and> set (graph_get dm nm) \<subseteq> insert x vis}"
    (is "_ = ?R")
  proof (rule set_eqI)
    fix nm
    show "nm \<in> set added \<longleftrightarrow> nm \<in> ?R"
    proof (cases "nm \<in> fst ` set dm \<and> x \<in> set (graph_get dm nm)")
      case False
      then show ?thesis unfolding s using mem [of nm] by auto
    next
      case True
      then have c1: "1 \<le> int (count_list (graph_get dm nm) x)"
        by (cases "count_list (graph_get dm nm) x") (auto simp: count_list_0_iff)
      have r: "remaining dm vis nm
                 = remaining dm (insert x vis) nm + int (count_list (graph_get dm nm) x)"
        by (rule remaining_insert [OF x])
      have "nm \<in> set added \<longleftrightarrow>
              1 \<le> remaining dm vis nm
            \<and> remaining dm vis nm \<le> int (count_list (graph_get dm nm) x)"
        unfolding s using True mem [of nm] val [of nm] by (simp add: cnt)
      also have "\<dots> \<longleftrightarrow> remaining dm (insert x vis) nm = 0"
        using r c1 remaining_nonneg [of dm "insert x vis" nm] by linarith
      also have "\<dots> \<longleftrightarrow> set (graph_get dm nm) \<subseteq> insert x vis"
        by (rule remaining_zero)
      finally show ?thesis using True by simp
    qed
  qed
  show ?thesis
    using run ok' d s' by blast
qed

lemma process_ready_char:
  assumes wf: "wf_deps dm" and gr: "\<And>d. graph_get graph d = dependents dm d"
  shows "ind_ok dm (indegree st) (visited st) \<Longrightarrow> distinct rs \<Longrightarrow> set rs \<inter> visited st = {} \<Longrightarrow>
     \<exists>st' added. process_ready active graph st rs = Inr st'
        \<and> visited st' = visited st \<union> set rs
        \<and> ind_ok dm (indegree st') (visited st')
        \<and> current_layer st' = current_layer st @ layer_of active rs
        \<and> next_ready st' = next_ready st @ added
        \<and> distinct added
        \<and> set added = {nm \<in> fst ` set dm. set (graph_get dm nm) \<subseteq> visited st \<union> set rs
                                    \<and> \<not> set (graph_get dm nm) \<subseteq> visited st}"
proof (induction rs arbitrary: st)
  case Nil
  then show ?case by (auto simp: layer_of_def)
next
  case (Cons x rs)
  have x: "x \<notin> visited st" using Cons.prems by auto
  let ?st1 = "st\<lparr>visited := insert x (visited st)\<rparr>"
  let ?st2 = "(case map_of active x of
                     None \<Rightarrow> ?st1
                   | Some m \<Rightarrow> ?st1\<lparr>current_layer := current_layer ?st1 @ [m]\<rparr>)"
  have st2: "indegree ?st2 = indegree st" "next_ready ?st2 = next_ready st"
      "visited ?st2 = insert x (visited st)"
      "current_layer ?st2 = current_layer st @ layer_of active [x]"
    by (simp_all add: layer_of_def split: option.splits)
  from dec_step [OF wf Cons.prems(1) x, of "next_ready st"] obtain ind' added1 where
    run1: "dec_dependents (indegree st) (next_ready st) (dependents dm x)
             = Inr (ind', next_ready st @ added1)"
    and ok1: "ind_ok dm ind' (insert x (visited st))"
    and d1: "distinct added1"
    and s1: "set added1 = {nm \<in> fst ` set dm. x \<in> set (graph_get dm nm)
                                      \<and> set (graph_get dm nm) \<subseteq> insert x (visited st)}"
    by blast
  let ?st3 = "?st2\<lparr>indegree := ind', next_ready := next_ready st @ added1\<rparr>"
  have st3: "indegree ?st3 = ind'" "next_ready ?st3 = next_ready st @ added1"
      "visited ?st3 = insert x (visited st)"
      "current_layer ?st3 = current_layer st @ layer_of active [x]"
    using st2 by simp_all
  have step: "process_ready active graph st (x # rs) = process_ready active graph ?st3 rs"
    using x run1 by (simp add: gr Let_def st2)
  have pre: "ind_ok dm (indegree ?st3) (visited ?st3)" "distinct rs" "set rs \<inter> visited ?st3 = {}"
    using ok1 Cons.prems by (auto simp: st3)
  from Cons.IH [OF pre] obtain st' added2 where
    run2: "process_ready active graph ?st3 rs = Inr st'"
    and v2: "visited st' = visited ?st3 \<union> set rs"
    and ok2: "ind_ok dm (indegree st') (visited st')"
    and c2: "current_layer st' = current_layer ?st3 @ layer_of active rs"
    and n2: "next_ready st' = next_ready ?st3 @ added2"
    and d2: "distinct added2"
    and s2: "set added2 = {nm \<in> fst ` set dm. set (graph_get dm nm) \<subseteq> visited ?st3 \<union> set rs
                                    \<and> \<not> set (graph_get dm nm) \<subseteq> visited ?st3}"
    by blast
  have A: "process_ready active graph st (x # rs) = Inr st'"
    using step run2 by simp
  have B: "visited st' = visited st \<union> set (x # rs)"
    using v2 by (simp add: st3)
  have C: "current_layer st' = current_layer st @ layer_of active (x # rs)"
    using c2 by (simp add: st3 layer_of_def)
  have D: "next_ready st' = next_ready st @ (added1 @ added2)"
    using n2 by (simp add: st3)
  have E: "distinct (added1 @ added2)"
    using d1 d2 unfolding distinct_append s1 s2 st3 by auto
  have F: "set (added1 @ added2) = {nm \<in> fst ` set dm. set (graph_get dm nm) \<subseteq> visited st \<union> set (x # rs)
                                    \<and> \<not> set (graph_get dm nm) \<subseteq> visited st}"
    unfolding set_append s1 s2 st3 using x by auto
  show ?case
    apply (rule exI [of _ st'])
    apply (rule exI [of _ "added1 @ added2"])
    using A B ok2 C D E F apply simp
    done
qed

lemma layer_of_names:
  assumes "act_ok dm active" "set rs \<subseteq> fst ` set dm"
  shows "map name (layer_of active rs) = rs
       \<and> (\<forall>m \<in> set (layer_of active rs). map_of active (name m) = Some m)"
  using assms(2)
proof (induction rs)
  case Nil
  then show ?case by (simp add: layer_of_def)
next
  case (Cons x rs)
  then have "x \<in> fst ` set active"
    using assms(1) by (simp add: act_ok_def)
  then obtain m where m: "map_of active x = Some m"
    by (metis map_of_eq_None_iff not_None_eq)
  then have nm: "name m = x"
    using assms(1) by (simp add: act_ok_def)
  have "layer_of active (x # rs) = m # layer_of active rs"
    using m by (simp add: layer_of_def)
  then show ?case
    using Cons m nm by simp
qed

lemma avail_mono: "A \<subseteq> B \<Longrightarrow> avail dm A \<subseteq> avail dm B"
  by (auto simp: avail_def)

lemma layers_ok_snoc:
  assumes lo: "layers_ok dm active layers vis"
    and names: "map name cl = rs" and act: "\<forall>m \<in> set cl. map_of active (name m) = Some m"
    and rs: "rs \<noteq> []" "distinct rs" "set rs \<inter> vis = {}" "set rs \<subseteq> avail dm vis"
  shows "layers_ok dm active (layers @ [cl]) (vis \<union> set rs)"
proof -
  have ncl: "name ` set cl = set rs"
    using names by (metis set_map)
  have 1: "name ` set (concat (layers @ [cl])) = vis \<union> set rs"
    using lo ncl by (simp add: layers_ok_def image_Un)
  have 2: "distinct (map name (concat (layers @ [cl])))"
    using lo names rs(2,3) by (auto simp: layers_ok_def)
  have 3: "[] \<notin> set (layers @ [cl])"
    using lo names rs(1) by (auto simp: layers_ok_def)
  have 4: "\<forall>m \<in> set (concat (layers @ [cl])). map_of active (name m) = Some m"
    using lo act by (auto simp: layers_ok_def)
  have 5: "set (graph_get dm (name m)) \<subseteq> name ` set (concat (take i (layers @ [cl])))"
    if i: "i < length (layers @ [cl])" and m: "m \<in> set ((layers @ [cl]) ! i)" for i m
  proof (cases "i < length layers")
    case True
    then show ?thesis
      using lo m by (simp add: layers_ok_def nth_append)
  next
    case False
    then have il: "i = length layers" using i by simp
    then have "name m \<in> set rs" using m ncl by auto
    then have "set (graph_get dm (name m)) \<subseteq> vis"
      using rs(4) by (auto simp: avail_def)
    then show ?thesis
      using lo il by (simp add: layers_ok_def)
  qed
  show ?thesis
    unfolding layers_ok_def using 1 2 3 4 5 by blast
qed

lemma layer_loop_char:
  assumes wf: "wf_deps dm"
  shows "(\<forall>d. graph_get graph d = dependents dm d) \<Longrightarrow> act_ok dm active \<Longrightarrow>
     kahn_inv dm active ind vis layers ready \<Longrightarrow>
     \<exists>vis' layers'. layer_loop active graph ind vis layers ready = Inr (vis', layers')
        \<and> vis' \<subseteq> fst ` set dm \<and> avail dm vis' \<subseteq> vis' \<and> layers_ok dm active layers' vis'"
proof (induction active graph ind vis layers ready rule: layer_loop.induct)
  case (1 active graph ind vis layers ready)
  note gr = 1(2) and act = 1(3) and inv = 1(4)
  have ok: "ind_ok dm ind vis" and va: "vis \<subseteq> avail dm vis" and dr: "distinct ready"
    and sr: "set ready = avail dm vis - vis" and lo: "layers_ok dm active layers vis"
    using inv by (simp_all add: kahn_inv_def)
  show ?case
  proof (cases "ready = []")
    case True
    have "vis \<subseteq> fst ` set dm" using va by (auto simp: avail_def)
    moreover have "avail dm vis \<subseteq> vis" using sr True by auto
    ultimately show ?thesis
      using True lo by (subst layer_loop.simps) simp
  next
    case False
    let ?st0 = "\<lparr>visited = vis, indegree = ind, current_layer = [], next_ready = []\<rparr>"
    have pre: "ind_ok dm (indegree ?st0) (visited ?st0)" "distinct ready"
        "set ready \<inter> visited ?st0 = {}"
      using ok dr sr by auto
    have gr': "\<And>d. graph_get graph d = dependents dm d"
      using gr by simp
    have "\<exists>st' added. process_ready active graph ?st0 ready = Inr st'
        \<and> visited st' = vis \<union> set ready
        \<and> ind_ok dm (indegree st') (visited st')
        \<and> current_layer st' = layer_of active ready
        \<and> next_ready st' = added
        \<and> distinct added
        \<and> set added = {nm \<in> fst ` set dm. set (graph_get dm nm) \<subseteq> vis \<union> set ready
                                    \<and> \<not> set (graph_get dm nm) \<subseteq> vis}"
      using process_ready_char [OF wf gr' pre, of active] by simp
    then obtain st' added where
      run: "process_ready active graph ?st0 ready = Inr st'"
      and v: "visited st' = vis \<union> set ready"
      and ok': "ind_ok dm (indegree st') (visited st')"
      and c: "current_layer st' = layer_of active ready"
      and n: "next_ready st' = added"
      and d: "distinct added"
      and s: "set added = {nm \<in> fst ` set dm. set (graph_get dm nm) \<subseteq> vis \<union> set ready
                                    \<and> \<not> set (graph_get dm nm) \<subseteq> vis}"
      by blast
    have rsub: "set ready \<subseteq> fst ` set dm" "set ready \<subseteq> avail dm vis"
      using sr by (auto simp: avail_def)
    note ln = layer_of_names [OF act rsub(1)]
    have un: "vis \<union> set ready = avail dm vis"
      using va sr by auto
    have cl_ne: "current_layer st' \<noteq> []"
      using ln False c by (metis list.map_disc_iff)
    have lo': "layers_ok dm active (layers @ [current_layer st']) (visited st')"
      unfolding v c
      using ln False dr sr rsub(2) by (intro layers_ok_snoc [OF lo]) auto
    have va': "visited st' \<subseteq> avail dm (visited st')"
      using un v avail_mono [of vis "visited st'" dm] by auto
    have sa: "set (next_ready st') = avail dm (visited st') - visited st'"
      unfolding n s v using un by (auto simp: avail_def)
    have inv': "kahn_inv dm active (indegree st') (visited st')
                  (if current_layer st' \<noteq> [] then layers @ [current_layer st'] else layers)
                  (next_ready st')"
      unfolding kahn_inv_def using ok' va' d n sa lo' cl_ne by simp
    from 1(1) [OF False run gr act inv'] obtain vis' layers' where
      "layer_loop active graph (indegree st') (visited st')
         (if current_layer st' \<noteq> [] then layers @ [current_layer st'] else layers)
         (next_ready st') = Inr (vis', layers')"
      "vis' \<subseteq> fst ` set dm" "avail dm vis' \<subseteq> vis'" "layers_ok dm active layers' vis'"
      by blast
    then show ?thesis
      using False run by (subst layer_loop.simps) simp
  qed
qed

lemma update_fresh: "k \<notin> fst ` set d \<Longrightarrow> AList.update k v d = d @ [(k, v)]"
  by (induction d) auto

lemma fold_update_fresh:
  "distinct (map name xs) \<Longrightarrow> name ` set xs \<inter> fst ` set d = {} \<Longrightarrow>
   fold (\<lambda>m d. AList.update (name m) m d) xs d = d @ map (\<lambda>m. (name m, m)) xs"
proof (induction xs arbitrary: d)
  case Nil
  then show ?case by simp
next
  case (Cons x xs)
  have u: "AList.update (name x) x d = d @ [(name x, x)]"
    using Cons.prems by (intro update_fresh) auto
  have "name ` set xs \<inter> fst ` set (d @ [(name x, x)]) = {}"
    using Cons.prems by auto
  then show ?case
    using Cons.IH [of "d @ [(name x, x)]"] Cons.prems u by simp
qed

lemma build_active_distinct:
  "distinct (enabled_names modules) \<Longrightarrow>
   build_active modules = map (\<lambda>m. (name m, m)) (filter enabled modules)"
  unfolding build_active_def enabled_names_def
  using fold_update_fresh [of "filter enabled modules" "[]"] by simp

lemma map_of_active:
  assumes "distinct (enabled_names modules)"
  shows "map_of (build_active modules) nm = Some m
           \<longleftrightarrow> m \<in> set modules \<and> enabled m \<and> name m = nm"
proof -
  have d: "distinct (map fst (map (\<lambda>m. (name m, m)) (filter enabled modules)))"
    using assms by (simp add: enabled_names_def comp_def)
  show ?thesis
    unfolding build_active_distinct [OF assms]
    using map_of_eq_Some_iff [OF d, of nm m] by auto
qed

lemma keys_active:
  "distinct (enabled_names modules) \<Longrightarrow>
   map fst (build_active modules) = enabled_names modules"
  by (simp add: build_active_distinct enabled_names_def comp_def)

lemma keys_deps_map: "map fst (build_deps_map active) = map fst active"
  by (simp add: build_deps_map_def comp_def case_prod_unfold)

lemma map_of_map_values:
  "map_of (map (\<lambda>(k, v). (k, f v)) al) k = map_option f (map_of al k)"
  by (induction al) auto

lemma graph_get_deps_map:
  assumes "distinct (map fst active)" "map_of active nm = Some m"
  shows "graph_get (build_deps_map active) nm = filter (\<lambda>d. in_dict d active) (depends_on m)"
proof -
  have "map_of (build_deps_map active) nm
          = map_option (\<lambda>m. filter (\<lambda>d. in_dict d active) (depends_on m)) (map_of active nm)"
    unfolding build_deps_map_def by (rule map_of_map_values)
  then show ?thesis
    using assms(2) by (simp add: graph_get_def)
qed

lemma graph_get_deps_map_none:
  "nm \<notin> fst ` set active \<Longrightarrow> graph_get (build_deps_map active) nm = []"
proof -
  assume "nm \<notin> fst ` set active"
  then have "nm \<notin> fst ` set (build_deps_map active)"
    using keys_deps_map [of active] by (metis set_map)
  then have "map_of (build_deps_map active) nm = None"
    by (simp add: map_of_eq_None_iff)
  then show ?thesis by (simp add: graph_get_def)
qed

lemma wf_deps_build:
  assumes "distinct (map fst active)"
  shows "wf_deps (build_deps_map active)"
  unfolding wf_deps_def
proof (intro conjI allI)
  show "distinct (map fst (build_deps_map active))"
    using assms by (simp add: keys_deps_map)
next
  fix nm
  have k: "fst ` set (build_deps_map active) = fst ` set active"
    using keys_deps_map [of active] by (metis set_map)
  show "set (graph_get (build_deps_map active) nm) \<subseteq> fst ` set (build_deps_map active)"
  proof (cases "map_of active nm")
    case None
    then have "nm \<notin> fst ` set active" by (simp add: map_of_eq_None_iff)
    then show ?thesis by (simp add: graph_get_deps_map_none)
  next
    case (Some m)
    show ?thesis
      unfolding graph_get_deps_map [OF assms Some] k by (auto simp: in_dict_def)
  qed
qed

lemma map_of_build_indegree:
  "map_of (build_indegree dm) nm = map_option (\<lambda>ds. int (length ds)) (map_of dm nm)"
  unfolding build_indegree_def by (induction dm) auto

lemma keys_build_indegree: "map fst (build_indegree dm) = map fst dm"
  by (simp add: build_indegree_def comp_def case_prod_unfold)

lemma ind_ok_initial:
  "ind_ok dm (build_indegree dm) {}"
  unfolding ind_ok_def
proof (intro conjI ballI)
  show "fst ` set (build_indegree dm) = fst ` set dm"
    using keys_build_indegree [of dm] by (metis set_map)
next
  fix nm assume "nm \<in> fst ` set dm"
  then obtain ds where ds: "map_of dm nm = Some ds"
    by (metis map_of_eq_None_iff not_None_eq)
  then show "map_of (build_indegree dm) nm = Some (remaining dm {} nm)"
    by (simp add: map_of_build_indegree remaining_def graph_get_def)
qed

lemma ready_initial:
  assumes "distinct (map fst dm)"
  shows "distinct (map fst (filter (\<lambda>(nm, deg). deg = 0) (build_indegree dm)))
       \<and> set (map fst (filter (\<lambda>(nm, deg). deg = 0) (build_indegree dm))) = avail dm {} - {}"
proof
  have d: "distinct (map fst (build_indegree dm))"
    using assms by (simp add: keys_build_indegree)
  then show "distinct (map fst (filter (\<lambda>(nm, deg). deg = 0) (build_indegree dm)))"
    by (rule distinct_map_filter)
  have "nm \<in> set (map fst (filter (\<lambda>(nm, deg). deg = 0) (build_indegree dm)))
          \<longleftrightarrow> nm \<in> avail dm {}" for nm
  proof -
    have "nm \<in> set (map fst (filter (\<lambda>(nm, deg). deg = 0) (build_indegree dm)))
            \<longleftrightarrow> (nm, 0) \<in> set (build_indegree dm)"
      by force
    also have "\<dots> \<longleftrightarrow> map_of (build_indegree dm) nm = Some 0"
      using d by simp
    also have "\<dots> \<longleftrightarrow> (\<exists>ds. map_of dm nm = Some ds \<and> ds = [])"
      by (auto simp: map_of_build_indegree)
    also have "\<dots> \<longleftrightarrow> nm \<in> avail dm {}"
    proof (cases "map_of dm nm")
      case None
      then have "nm \<notin> fst ` set dm" by (simp add: map_of_eq_None_iff)
      then show ?thesis using None by (simp add: avail_def)
    next
      case (Some ds)
      then have "nm \<in> fst ` set dm"
        by (metis map_of_eq_None_iff option.distinct(1))
      then show ?thesis using Some by (simp add: avail_def graph_get_def)
    qed
    finally show ?thesis .
  qed
  then show "set (map fst (filter (\<lambda>(nm, deg). deg = 0) (build_indegree dm))) = avail dm {} - {}"
    by blast
qed

lemma kahn_result:
  assumes d: "distinct (enabled_names modules)"
  shows "\<exists>vis layers.
           layer_loop (build_active modules)
             (build_graph (build_deps_map (build_active modules)))
             (build_indegree (build_deps_map (build_active modules))) {} []
             (map fst (filter (\<lambda>(nm, deg). deg = 0)
                (build_indegree (build_deps_map (build_active modules)))))
             = Inr (vis, layers)
         \<and> vis \<subseteq> set (enabled_names modules)
         \<and> avail (build_deps_map (build_active modules)) vis \<subseteq> vis
         \<and> layers_ok (build_deps_map (build_active modules)) (build_active modules) layers vis"
proof -
  let ?active = "build_active modules"
  let ?dm = "build_deps_map ?active"
  let ?ready = "map fst (filter (\<lambda>(nm, deg). deg = 0) (build_indegree ?dm))"
  have ka: "map fst ?active = enabled_names modules"
    using d by (rule keys_active)
  have da: "distinct (map fst ?active)"
    using d ka by simp
  have kd: "fst ` set ?dm = set (enabled_names modules)"
    using keys_deps_map [of ?active] ka by (metis set_map)
  have wf: "wf_deps ?dm"
    using da by (rule wf_deps_build)
  have act: "act_ok ?dm ?active"
    unfolding act_ok_def
  proof (intro conjI allI impI)
    show "fst ` set ?active = fst ` set ?dm"
      using keys_deps_map [of ?active] by (metis set_map)
  next
    fix nm m assume "map_of ?active nm = Some m"
    then show "name m = nm"
      using map_of_active [OF d] by simp
  qed
  have dd: "distinct (map fst ?dm)"
    using wf by (simp add: wf_deps_def)
  have inv: "kahn_inv ?dm ?active (build_indegree ?dm) {} [] ?ready"
    unfolding kahn_inv_def
    using ind_ok_initial [of ?dm] ready_initial [OF dd]
    by (simp add: layers_ok_def)
  have gr: "\<forall>x. graph_get (build_graph ?dm) x = dependents ?dm x"
    by (simp add: graph_get_build_graph)
  from layer_loop_char [OF wf gr act inv] kd show ?thesis
    by simp
qed

lemma dep_edges_graph_get:
  assumes d: "distinct (enabled_names modules)"
  shows "(nm, b) \<in> dep_edges modules
           \<longleftrightarrow> b \<in> set (graph_get (build_deps_map (build_active modules)) nm)"
proof (cases "map_of (build_active modules) nm")
  case None
  then have nk: "nm \<notin> fst ` set (build_active modules)"
    by (simp add: map_of_eq_None_iff)
  then have "nm \<notin> set (enabled_names modules)"
    using keys_active [OF d] by (metis set_map)
  then have "(nm, b) \<notin> dep_edges modules"
    by (auto simp: dep_edges_def enabled_names_def)
  then show ?thesis
    using nk by (simp add: graph_get_deps_map_none)
next
  case (Some m)
  have da: "distinct (map fst (build_active modules))"
    using d keys_active [OF d] by simp
  have m: "m \<in> set modules" "enabled m" "name m = nm"
    using Some map_of_active [OF d] by auto
  have uniq: "a = m" if "a \<in> set modules" "enabled a" "name a = nm" for a
    using that map_of_active [OF d, of nm a] Some by simp
  have ind: "in_dict b (build_active modules) \<longleftrightarrow> b \<in> set (enabled_names modules)"
    unfolding in_dict_def keys_active [OF d] ..
  have "(nm, b) \<in> dep_edges modules
          \<longleftrightarrow> b \<in> set (depends_on m) \<and> b \<in> set (enabled_names modules)"
    unfolding dep_edges_def using m uniq by blast
  then show ?thesis
    unfolding graph_get_deps_map [OF da Some] by (simp add: ind)
qed

lemma finite_dep_edges: "finite (dep_edges modules)"
proof -
  have "dep_edges modules \<subseteq> name ` set modules \<times> set (enabled_names modules)"
    by (auto simp: dep_edges_def)
  then show ?thesis
    by (rule finite_subset) simp
qed

lemma acyclic_all_visited:
  assumes d: "distinct (enabled_names modules)" and ac: "acyclic (dep_edges modules)"
    and sub: "vis \<subseteq> set (enabled_names modules)"
    and closed: "avail (build_deps_map (build_active modules)) vis \<subseteq> vis"
  shows "vis = set (enabled_names modules)"
proof (rule ccontr)
  assume "vis \<noteq> set (enabled_names modules)"
  then obtain x where x: "x \<in> set (enabled_names modules) - vis"
    using sub by auto
  have "wf ((dep_edges modules)\<inverse>)"
    using finite_dep_edges ac by (rule finite_acyclic_wf_converse)
  from wfE_min [OF this x] obtain z where
    z: "z \<in> set (enabled_names modules) - vis"
    and min: "\<And>y. (y, z) \<in> (dep_edges modules)\<inverse> \<Longrightarrow> y \<notin> set (enabled_names modules) - vis"
    by blast
  let ?dm = "build_deps_map (build_active modules)"
  have kd: "fst ` set ?dm = set (enabled_names modules)"
    using keys_deps_map [of "build_active modules"] keys_active [OF d] by (metis set_map)
  have "set (graph_get ?dm z) \<subseteq> vis"
  proof
    fix b assume b: "b \<in> set (graph_get ?dm z)"
    then have e: "(z, b) \<in> dep_edges modules"
      using dep_edges_graph_get [OF d] by simp
    then have "b \<in> set (enabled_names modules)"
      by (auto simp: dep_edges_def)
    then show "b \<in> vis"
      using min [of b] e by auto
  qed
  then have "z \<in> avail ?dm vis"
    using z kd by (simp add: avail_def)
  then show False
    using closed z by auto
qed

lemma layer_index_le:
  assumes "j < length layers" "nm \<in> name ` set (layers ! j)"
  shows "layer_index layers nm \<le> j"
proof (rule ccontr)
  assume "\<not> layer_index layers nm \<le> j"
  then have lt: "j < length (takeWhile (\<lambda>l. nm \<notin> name ` set l) layers)"
    by (simp add: layer_index_def)
  then have "takeWhile (\<lambda>l. nm \<notin> name ` set l) layers ! j = layers ! j"
    by (rule takeWhile_nth)
  moreover have "takeWhile (\<lambda>l. nm \<notin> name ` set l) layers ! j
                   \<in> set (takeWhile (\<lambda>l. nm \<notin> name ` set l) layers)"
    using lt by simp
  ultimately have "nm \<notin> name ` set (layers ! j)"
    using set_takeWhileD by fastforce
  then show False using assms(2) by simp
qed

lemma layer_index_take:
  assumes "nm \<in> name ` set (concat (take i layers))"
  shows "layer_index layers nm < i"
proof -
  from assms obtain l where l: "l \<in> set (take i layers)" "nm \<in> name ` set l"
    by auto
  then obtain j where j: "j < length (take i layers)" "take i layers ! j = l"
    by (auto simp: in_set_conv_nth)
  then have "j < i" "j < length layers" "layers ! j = l"
    by auto
  then show ?thesis
    using layer_index_le [of j layers nm] l(2) by simp
qed

lemma length_takeWhile_lt:
  "\<exists>x \<in> set xs. \<not> P x \<Longrightarrow> length (takeWhile P xs) < length xs"
  by (induction xs) auto

lemma layer_index_mem:
  assumes "nm \<in> name ` set (concat layers)"
  shows "layer_index layers nm < length layers
       \<and> nm \<in> name ` set (layers ! layer_index layers nm)"
proof -
  from assms have ex: "\<exists>l \<in> set layers. \<not> (nm \<notin> name ` set l)"
    by auto
  then have lt: "length (takeWhile (\<lambda>l. nm \<notin> name ` set l) layers) < length layers"
    by (rule length_takeWhile_lt)
  from nth_length_takeWhile [OF lt] show ?thesis
    using lt by (simp add: layer_index_def)
qed

lemma all_visited_acyclic:
  assumes d: "distinct (enabled_names modules)"
    and lo: "layers_ok (build_deps_map (build_active modules)) (build_active modules) layers
               (set (enabled_names modules))"
  shows "acyclic (dep_edges modules)"
proof (rule acyclicI_order [where f = "layer_index layers"])
  fix a b assume e: "(a, b) \<in> dep_edges modules"
  let ?dm = "build_deps_map (build_active modules)"
  have "a \<in> set (enabled_names modules)"
    using e by (auto simp: dep_edges_def enabled_names_def)
  then have "a \<in> name ` set (concat layers)"
    using lo by (simp add: layers_ok_def)
  from layer_index_mem [OF this] obtain m where
    i: "layer_index layers a < length layers"
    and m: "m \<in> set (layers ! layer_index layers a)" "name m = a"
    by auto
  have "set (graph_get ?dm (name m)) \<subseteq> name ` set (concat (take (layer_index layers a) layers))"
    using lo i m(1) unfolding layers_ok_def by blast
  moreover have "b \<in> set (graph_get ?dm a)"
    using e dep_edges_graph_get [OF d] by simp
  ultimately have "b \<in> name ` set (concat (take (layer_index layers a) layers))"
    using m(2) by auto
  then show "layer_index layers b < layer_index layers a"
    by (rule layer_index_take)
qed

lemma resolve_cases:
  assumes d: "distinct (enabled_names modules)"
  shows "\<exists>vis layers.
           vis \<subseteq> set (enabled_names modules)
         \<and> avail (build_deps_map (build_active modules)) vis \<subseteq> vis
         \<and> layers_ok (build_deps_map (build_active modules)) (build_active modules) layers vis
         \<and> resolve_module_layers modules =
             (if vis \<noteq> set (enabled_names modules)
              then Inr (missing_log (build_active modules) @ [fallback_warning],
                        map (\<lambda>m. [m]) (filter enabled modules))
              else Inr (missing_log (build_active modules), layers))"
proof -
  from kahn_result [OF d] obtain vis layers where
    run: "layer_loop (build_active modules)
             (build_graph (build_deps_map (build_active modules)))
             (build_indegree (build_deps_map (build_active modules))) {} []
             (map fst (filter (\<lambda>(nm, deg). deg = 0)
                (build_indegree (build_deps_map (build_active modules)))))
             = Inr (vis, layers)"
    and sub: "vis \<subseteq> set (enabled_names modules)"
    and cl: "avail (build_deps_map (build_active modules)) vis \<subseteq> vis"
    and lo: "layers_ok (build_deps_map (build_active modules)) (build_active modules) layers vis"
    by blast
  have len: "length (build_active modules) = card (set (enabled_names modules))"
    using keys_active [OF d] distinct_card [OF d] by (metis length_map)
  have "card vis \<noteq> length (build_active modules) \<longleftrightarrow> vis \<noteq> set (enabled_names modules)"
  proof
    assume "card vis \<noteq> length (build_active modules)"
    then show "vis \<noteq> set (enabled_names modules)" using len by auto
  next
    assume ne: "vis \<noteq> set (enabled_names modules)"
    then have "vis \<subset> set (enabled_names modules)" using sub by auto
    then have "card vis < card (set (enabled_names modules))"
      by (intro psubset_card_mono) auto
    then show "card vis \<noteq> length (build_active modules)" using len by simp
  qed
  then have "resolve_module_layers modules =
             (if vis \<noteq> set (enabled_names modules)
              then Inr (missing_log (build_active modules) @ [fallback_warning],
                        map (\<lambda>m. [m]) (filter enabled modules))
              else Inr (missing_log (build_active modules), layers))"
    unfolding resolve_module_layers_def Let_def run fallback_warning_def by simp
  then show ?thesis
    using sub cl lo by blast
qed

lemma missing_log_mem:
  assumes d: "distinct (enabled_names modules)"
    and m: "m \<in> set modules" "enabled m"
    and b: "b \<in> set (depends_on m)" "b \<notin> set (enabled_names modules)"
  shows "missing_warning modules m \<in> set (missing_log (build_active modules))"
proof -
  have ind: "in_dict x (build_active modules) \<longleftrightarrow> x \<in> set (enabled_names modules)" for x
    unfolding in_dict_def keys_active [OF d] ..
  have mem: "(name m, m) \<in> set (build_active modules)"
    using m by (simp add: build_active_distinct [OF d])
  have ne: "filter (\<lambda>d. \<not> in_dict d (build_active modules)) (depends_on m) \<noteq> []"
    using b by (auto simp: filter_empty_conv ind)
  have "missing_warning modules m
          \<in> set ((\<lambda>(nm, m).
               let missing = filter (\<lambda>d. \<not> in_dict d (build_active modules)) (depends_on m)
               in if missing \<noteq> []
                  then [''[Module] '' @ nm @ '' missing deps '' @ py_join '', '' missing
                        @ ''; continuing without them.'']
                  else []) (name m, m))"
    using ne by (simp add: missing_warning_def Let_def ind)
  then show ?thesis
    unfolding missing_log_def using mem by (auto simp del: append.simps)
qed

text \<open>
  C2. For every list of modules whose enabled modules have distinct names and whose
  dependency graph, restricted to the enabled modules, is acyclic:
  \<open>_resolve_module_layers\<close> returns layers in which every enabled module stands
  exactly once and no other module does; for every dependency of a module on an enabled
  module, the dependency stands in a layer of strictly smaller index; dependencies on
  disabled or absent modules do not keep a module from being placed, and each module
  that has one is named in a logged warning.
\<close>

theorem resolve_layers_acyclic:
  assumes d: "distinct (enabled_names modules)" and ac: "acyclic (dep_edges modules)"
  shows "\<exists>logs layers. resolve_module_layers modules = Inr (logs, layers)
      \<and> set (concat layers) = {m \<in> set modules. enabled m}
      \<and> distinct (map name (concat layers))
      \<and> [] \<notin> set layers
      \<and> (\<forall>i < length layers. \<forall>a \<in> set (layers ! i). \<forall>b \<in> set (depends_on a).
            b \<in> set (enabled_names modules) \<longrightarrow> (\<exists>j < i. b \<in> name ` set (layers ! j)))
      \<and> (\<forall>m \<in> set modules. \<forall>b \<in> set (depends_on m).
            enabled m \<and> b \<notin> set (enabled_names modules) \<longrightarrow>
            missing_warning modules m \<in> set logs)"
proof -
  let ?active = "build_active modules"
  let ?dm = "build_deps_map ?active"
  from resolve_cases [OF d] obtain vis layers where
    sub: "vis \<subseteq> set (enabled_names modules)"
    and cl: "avail ?dm vis \<subseteq> vis"
    and lo: "layers_ok ?dm ?active layers vis"
    and res: "resolve_module_layers modules =
             (if vis \<noteq> set (enabled_names modules)
              then Inr (missing_log ?active @ [fallback_warning],
                        map (\<lambda>m. [m]) (filter enabled modules))
              else Inr (missing_log ?active, layers))"
    by blast
  have all: "vis = set (enabled_names modules)"
    using d ac sub cl by (rule acyclic_all_visited)
  have 1: "resolve_module_layers modules = Inr (missing_log ?active, layers)"
    using res all by simp
  have act: "map_of ?active (name m) = Some m" if "m \<in> set (concat layers)" for m
    using lo that unfolding layers_ok_def by blast
  have en: "m \<in> set modules \<and> enabled m" if "m \<in> set (concat layers)" for m
    using act [OF that] map_of_active [OF d] by simp
  have 2: "set (concat layers) = {m \<in> set modules. enabled m}"
  proof (intro set_eqI iffI)
    fix m assume "m \<in> set (concat layers)"
    then show "m \<in> {m \<in> set modules. enabled m}" using en by simp
  next
    fix m assume "m \<in> {m \<in> set modules. enabled m}"
    then have m: "m \<in> set modules" "enabled m" by auto
    then have "name m \<in> vis"
      unfolding all by (auto simp: enabled_names_def)
    then have "name m \<in> name ` set (concat layers)"
      using lo by (simp add: layers_ok_def)
    then obtain m' where m': "m' \<in> set (concat layers)" "name m' = name m"
      by (metis imageE)
    have "map_of ?active (name m) = Some m"
      using m map_of_active [OF d] by simp
    moreover have "map_of ?active (name m) = Some m'"
      using act [OF m'(1)] m'(2) by simp
    ultimately show "m \<in> set (concat layers)"
      using m'(1) by simp
  qed
  have 3: "distinct (map name (concat layers))" and 4: "[] \<notin> set layers"
    using lo by (simp_all add: layers_ok_def)
  have da: "distinct (map fst ?active)"
    using d keys_active [OF d] by simp
  have 5: "\<exists>j < i. b \<in> name ` set (layers ! j)"
    if i: "i < length layers" and a: "a \<in> set (layers ! i)" and b: "b \<in> set (depends_on a)"
      and bn: "b \<in> set (enabled_names modules)" for i a b
  proof -
    have "layers ! i \<in> set layers"
      using i by simp
    then have am: "a \<in> set (concat layers)"
      using a by auto
    have "in_dict b ?active"
      unfolding in_dict_def keys_active [OF d] using bn .
    then have "b \<in> set (graph_get ?dm (name a))"
      unfolding graph_get_deps_map [OF da act [OF am]] using b by simp
    moreover have "set (graph_get ?dm (name a)) \<subseteq> name ` set (concat (take i layers))"
      using lo i a unfolding layers_ok_def by blast
    ultimately obtain l where l: "l \<in> set (take i layers)" "b \<in> name ` set l"
      by auto
    then obtain j where "j < length (take i layers)" "take i layers ! j = l"
      by (auto simp: in_set_conv_nth)
    then have "j < i" "layers ! j = l"
      by auto
    then show ?thesis using l(2) by blast
  qed
  have 6: "missing_warning modules m \<in> set (missing_log ?active)"
    if "m \<in> set modules" "b \<in> set (depends_on m)" "enabled m"
       "b \<notin> set (enabled_names modules)" for m b
    using missing_log_mem [OF d that(1) that(3) that(2) that(4)] .
  show ?thesis
    apply (rule exI [of _ "missing_log ?active"])
    apply (rule exI [of _ layers])
    using 1 2 3 4 5 6 apply blast
    done
qed

text \<open>
  C5. For every list of modules whose enabled modules have distinct names and whose
  dependency graph, restricted to the enabled modules, has a cycle:
  \<open>_resolve_module_layers\<close> logs the fallback and returns one layer for each enabled
  module, in the order of declaration, so that every enabled module stands in the
  layers exactly once.
\<close>

theorem resolve_layers_cycle_fallback:
  assumes d: "distinct (enabled_names modules)" and cyc: "\<not> acyclic (dep_edges modules)"
  shows "\<exists>logs layers. resolve_module_layers modules = Inr (logs, layers)
      \<and> layers = map (\<lambda>m. [m]) (filter enabled modules)
      \<and> concat layers = filter enabled modules
      \<and> fallback_warning \<in> set logs"
proof -
  let ?active = "build_active modules"
  let ?dm = "build_deps_map ?active"
  from resolve_cases [OF d] obtain vis layers where
    lo: "layers_ok ?dm ?active layers vis"
    and res: "resolve_module_layers modules =
             (if vis \<noteq> set (enabled_names modules)
              then Inr (missing_log ?active @ [fallback_warning],
                        map (\<lambda>m. [m]) (filter enabled modules))
              else Inr (missing_log ?active, layers))"
    by blast
  have "vis \<noteq> set (enabled_names modules)"
    using all_visited_acyclic [OF d, of layers] lo cyc by auto
  then have "resolve_module_layers modules
               = Inr (missing_log ?active @ [fallback_warning],
                        map (\<lambda>m. [m]) (filter enabled modules))"
    using res by simp
  moreover have "concat (map (\<lambda>m. [m]) (filter enabled modules)) = filter enabled modules"
    by (induction modules) auto
  ultimately show ?thesis by simp
qed

lemma dep_edgesI:
  "a \<in> set modules \<Longrightarrow> enabled a \<Longrightarrow> b \<in> set (depends_on a) \<Longrightarrow>
   b \<in> set (enabled_names modules) \<Longrightarrow> (name a, b) \<in> dep_edges modules"
  unfolding dep_edges_def by blast

lemma fixture_layers:
  "resolve_module_layers
     [\<lparr>name = ''subdomains'', enabled = True, depends_on = []\<rparr>,
      \<lparr>name = ''web_services'', enabled = True, depends_on = [''subdomains'']\<rparr>,
      \<lparr>name = ''web_probe'', enabled = True, depends_on = [''web_services'', ''ghost'']\<rparr>,
      \<lparr>name = ''screenshotter'', enabled = False, depends_on = [''web_services'']\<rparr>]
   = Inr ([''[Module] web_probe missing deps ghost; continuing without them.''],
          [[\<lparr>name = ''subdomains'', enabled = True, depends_on = []\<rparr>],
           [\<lparr>name = ''web_services'', enabled = True, depends_on = [''subdomains'']\<rparr>],
           [\<lparr>name = ''web_probe'', enabled = True,
              depends_on = [''web_services'', ''ghost'']\<rparr>]])"
  by (simp add: resolve_module_layers_def build_active_def build_deps_map_def in_dict_def
        missing_log_def build_indegree_def build_graph_def graph_append_def graph_get_def
        Let_def)

lemma dep_edgesE:
  assumes "(a, b) \<in> dep_edges modules"
  obtains m where "m \<in> set modules" "enabled m" "b \<in> set (depends_on m)"
    "b \<in> set (enabled_names modules)" "a = name m"
  using assms unfolding dep_edges_def by blast

lemma fixture_acyclic:
  "acyclic (dep_edges
     [\<lparr>name = ''subdomains'', enabled = True, depends_on = []\<rparr>,
      \<lparr>name = ''web_services'', enabled = True, depends_on = [''subdomains'']\<rparr>,
      \<lparr>name = ''web_probe'', enabled = True, depends_on = [''web_services'', ''ghost'']\<rparr>,
      \<lparr>name = ''screenshotter'', enabled = False, depends_on = [''web_services'']\<rparr>])"
  (is "acyclic (dep_edges ?ms)")
proof (rule acyclicI_order [where f = "\<lambda>nm. if nm = ''subdomains'' then 0
                                        else if nm = ''web_services'' then 1 else (2::nat)"])
  fix a b assume "(a, b) \<in> dep_edges ?ms"
  then obtain m where m: "m \<in> set ?ms" "enabled m" "b \<in> set (depends_on m)"
    "b \<in> set (enabled_names ?ms)" "a = name m"
    by (rule dep_edgesE)
  have names: "set (enabled_names ?ms) = {''subdomains'', ''web_services'', ''web_probe''}"
    by (simp add: enabled_names_def)
  from m(1) have "m = \<lparr>name = ''subdomains'', enabled = True, depends_on = []\<rparr>
      \<or> m = \<lparr>name = ''web_services'', enabled = True, depends_on = [''subdomains'']\<rparr>
      \<or> m = \<lparr>name = ''web_probe'', enabled = True, depends_on = [''web_services'', ''ghost'']\<rparr>
      \<or> m = \<lparr>name = ''screenshotter'', enabled = False, depends_on = [''web_services'']\<rparr>"
    by simp
  then have "(a = ''web_services'' \<and> b = ''subdomains'') \<or> (a = ''web_probe'' \<and> b = ''web_services'')"
  proof (elim disjE)
    assume "m = \<lparr>name = ''subdomains'', enabled = True, depends_on = []\<rparr>"
    then show ?thesis using m(3) by simp
  next
    assume "m = \<lparr>name = ''web_services'', enabled = True, depends_on = [''subdomains'']\<rparr>"
    then show ?thesis using m(3,5) by simp
  next
    assume "m = \<lparr>name = ''web_probe'', enabled = True, depends_on = [''web_services'', ''ghost'']\<rparr>"
    then have "a = ''web_probe''" "b = ''web_services'' \<or> b = ''ghost''"
      using m(3,5) by simp_all
    moreover have "''ghost'' \<notin> set (enabled_names ?ms)"
      unfolding names by simp
    ultimately show ?thesis using m(4) by blast
  next
    assume "m = \<lparr>name = ''screenshotter'', enabled = False, depends_on = [''web_services'']\<rparr>"
    then show ?thesis using m(2) by simp
  qed
  then show "(if b = ''subdomains'' then 0 else if b = ''web_services'' then 1 else (2::nat))
           < (if a = ''subdomains'' then 0 else if a = ''web_services'' then 1 else (2::nat))"
    by auto
qed

theorem resolve_layers_acyclic_witness:
  "\<exists>logs layers.
     resolve_module_layers
       [\<lparr>name = ''subdomains'', enabled = True, depends_on = []\<rparr>,
        \<lparr>name = ''web_services'', enabled = True, depends_on = [''subdomains'']\<rparr>,
        \<lparr>name = ''web_probe'', enabled = True, depends_on = [''web_services'', ''ghost'']\<rparr>,
        \<lparr>name = ''screenshotter'', enabled = False, depends_on = [''web_services'']\<rparr>]
       = Inr (logs, layers)
     \<and> layers = [[\<lparr>name = ''subdomains'', enabled = True, depends_on = []\<rparr>],
           [\<lparr>name = ''web_services'', enabled = True, depends_on = [''subdomains'']\<rparr>],
           [\<lparr>name = ''web_probe'', enabled = True,
              depends_on = [''web_services'', ''ghost'']\<rparr>]]
     \<and> logs = [''[Module] web_probe missing deps ghost; continuing without them.'']
     \<and> distinct (map name (concat layers)) \<and> [] \<notin> set layers"
  using resolve_layers_acyclic
          [of "[\<lparr>name = ''subdomains'', enabled = True, depends_on = []\<rparr>,
        \<lparr>name = ''web_services'', enabled = True, depends_on = [''subdomains'']\<rparr>,
        \<lparr>name = ''web_probe'', enabled = True, depends_on = [''web_services'', ''ghost'']\<rparr>,
        \<lparr>name = ''screenshotter'', enabled = False, depends_on = [''web_services'']\<rparr>]"]
        fixture_acyclic fixture_layers
  by (simp add: enabled_names_def)

lemma fixture_fallback:
  "resolve_module_layers
     [\<lparr>name = ''a'', enabled = True, depends_on = [''b'']\<rparr>,
      \<lparr>name = ''b'', enabled = True, depends_on = [''a'']\<rparr>,
      \<lparr>name = ''c'', enabled = True, depends_on = []\<rparr>,
      \<lparr>name = ''d'', enabled = False, depends_on = []\<rparr>]
   = Inr ([fallback_warning],
          [[\<lparr>name = ''a'', enabled = True, depends_on = [''b'']\<rparr>],
           [\<lparr>name = ''b'', enabled = True, depends_on = [''a'']\<rparr>],
           [\<lparr>name = ''c'', enabled = True, depends_on = []\<rparr>]])"
  by (simp add: resolve_module_layers_def build_active_def build_deps_map_def in_dict_def
        missing_log_def build_indegree_def build_graph_def graph_append_def graph_get_def
        fallback_warning_def Let_def)

lemma fixture_cyclic:
  "\<not> acyclic (dep_edges
     [\<lparr>name = ''a'', enabled = True, depends_on = [''b'']\<rparr>,
      \<lparr>name = ''b'', enabled = True, depends_on = [''a'']\<rparr>,
      \<lparr>name = ''c'', enabled = True, depends_on = []\<rparr>,
      \<lparr>name = ''d'', enabled = False, depends_on = []\<rparr>])"
proof -
  let ?ms = "[\<lparr>name = ''a'', enabled = True, depends_on = [''b'']\<rparr>,
      \<lparr>name = ''b'', enabled = True, depends_on = [''a'']\<rparr>,
      \<lparr>name = ''c'', enabled = True, depends_on = []\<rparr>,
      \<lparr>name = ''d'', enabled = False, depends_on = []\<rparr>]"
  have "(''a'', ''b'') \<in> dep_edges ?ms"
    using dep_edgesI [of "\<lparr>name = ''a'', enabled = True, depends_on = [''b'']\<rparr>" ?ms "''b''"]
    by (simp add: enabled_names_def)
  moreover have "(''b'', ''a'') \<in> dep_edges ?ms"
    using dep_edgesI [of "\<lparr>name = ''b'', enabled = True, depends_on = [''a'']\<rparr>" ?ms "''a''"]
    by (simp add: enabled_names_def)
  ultimately have "(''a'', ''a'') \<in> (dep_edges ?ms)\<^sup>+"
    by (meson trancl.intros)
  then show ?thesis
    by (auto simp: acyclic_def)
qed

theorem resolve_layers_cycle_fallback_witness:
  "\<exists>logs layers.
     resolve_module_layers
       [\<lparr>name = ''a'', enabled = True, depends_on = [''b'']\<rparr>,
        \<lparr>name = ''b'', enabled = True, depends_on = [''a'']\<rparr>,
        \<lparr>name = ''c'', enabled = True, depends_on = []\<rparr>,
        \<lparr>name = ''d'', enabled = False, depends_on = []\<rparr>]
       = Inr (logs, layers)
     \<and> layers = [[\<lparr>name = ''a'', enabled = True, depends_on = [''b'']\<rparr>],
           [\<lparr>name = ''b'', enabled = True, depends_on = [''a'']\<rparr>],
           [\<lparr>name = ''c'', enabled = True, depends_on = []\<rparr>]]
     \<and> fallback_warning \<in> set logs"
  using resolve_layers_cycle_fallback
          [of "[\<lparr>name = ''a'', enabled = True, depends_on = [''b'']\<rparr>,
        \<lparr>name = ''b'', enabled = True, depends_on = [''a'']\<rparr>,
        \<lparr>name = ''c'', enabled = True, depends_on = []\<rparr>,
        \<lparr>name = ''d'', enabled = False, depends_on = []\<rparr>]"]
        fixture_cyclic fixture_fallback
  by (simp add: enabled_names_def)

section \<open>save\_state and load\_state\<close>
























text \<open>
  With pydantic, a snapshot that parses to a JSON value other than an object makes
  \<open>ReconStateModel(**data)\<close> raise a \<open>TypeError\<close>, which \<open>load_state\<close> does not
  catch; without pydantic the same snapshot gives the empty result.
\<close>

lemma load_state_non_object:
  "load_state True validate (Bytes (Parsed (PList [])) raw)
     = Inl (TypeError ''argument after ** must be a mapping'')
   \<and> load_state False validate (Bytes (Parsed (PList [])) raw) = Inr (PDict [])"
  by (simp add: load_state_def)


end
